theory Spec2Isabelle
  imports Main "HOL-Library.AList"
begin

section \<open>JavaScript values\<close>

text \<open>
  The embedding follows \<^verbatim>\<open>src/addon/mixins/realtime-store-mixin.js\<close>; the unnamed
  source file beside it is an earlier revision of the same mixin, with the same
  \<open>CementChannel\<close>. Values decoded from the wire are JSON documents. A JSON number is kept as the text that JavaScript's
  number-to-string conversion gives for it (\<open>JNum ''0''\<close> is the number zero, positive or
  negative), because the code only ever compares a number with \<open>0\<close> or uses it as a
  property key. \<open>undefined\<close> is \<open>None\<close> of \<open>json option\<close>.

  JavaScript objects used as dictionaries (\<open>cementMessages\<close>, \<open>subscriptions\<close>,
  \<open>jsonapiModelNames\<close>) are association lists of their own properties, in insertion
  order. A plain object also inherits the members of \<open>Object.prototype\<close>, which a lookup
  finds when the object has no property of its own under that name. For \<open>subscriptions\<close>
  the lookup is modelled with them (\<open>get_property\<close> below): the value found is then a
  function, or the prototype itself, and \<open>_push\<close> calls its missing \<open>includes\<close>. In
  \<open>cementMessages\<close> a lookup under an inherited name ends as one under a missing name
  does, with a TypeError at the call of a \<open>resolve\<close> or \<open>reject\<close> that is not there. The
  names written into \<open>cementMessages\<close> and \<open>jsonapiModelNames\<close>, ids drawn by \<open>UUID.v4\<close>
  and paths of model types, and the wire names looked up in \<open>jsonapiModelNames\<close> are
  taken not to be names of such members. No key is taken to be a canonical array index,
  which a JavaScript object enumerates first.
\<close>

datatype json =
    JNull
  | JBool bool
  | JNum string
  | JStr string
  | JArr "json list"
  | JObj "(string \<times> json) list"

datatype js_error =
    TypeError
  | SyntaxError
  | Error string
  | Thrown string

text \<open>Joining strings with a comma, as \<open>Array.prototype.join\<close> does.\<close>

fun join_comma :: "string list \<Rightarrow> string" where
  "join_comma [] = []"
| "join_comma [s] = s"
| "join_comma (s # t # ss) = s @ '','' @ join_comma (t # ss)"

text \<open>
  The string conversion of a decoded value, which is also its conversion to a property
  key: an array joins the conversions of its elements (\<open>null\<close> giving the empty string),
  an object is \<open>[object Object]\<close>.
\<close>

fun ToString :: "json \<Rightarrow> string"
  and ToString_elements :: "json list \<Rightarrow> string list" where
  "ToString JNull = ''null''"
| "ToString (JBool b) = (if b then ''true'' else ''false'')"
| "ToString (JNum s) = s"
| "ToString (JStr s) = s"
| "ToString (JArr xs) = join_comma (ToString_elements xs)"
| "ToString (JObj fs) = ''[object Object]''"
| "ToString_elements [] = []"
| "ToString_elements (x # xs) =
     (if x = JNull then [] else ToString x) # ToString_elements xs"

definition ToPropertyKey :: "json option \<Rightarrow> string" where
  "ToPropertyKey v = (case v of None \<Rightarrow> ''undefined'' | Some x \<Rightarrow> ToString x)"

text \<open>
  Reading a property of a decoded value (\<open>data.status\<close>, \<open>data.id\<close>, \<open>message.model\<close>,
  \<open>message.payload\<close>): \<open>null\<close> has no properties and the read throws a TypeError; an
  object gives the last member of that name or \<open>undefined\<close>; numbers, strings, booleans
  and arrays have no property of any of the names the code reads.
\<close>

definition get_prop :: "json \<Rightarrow> string \<Rightarrow> js_error + json option" where
  "get_prop data name =
     (case data of
        JNull \<Rightarrow> Inl TypeError
      | JObj fs \<Rightarrow> Inr (map_of (rev fs) name)
      | _ \<Rightarrow> Inr None)"

section \<open>The environment\<close>

text \<open>
  What the code calls and the repository does not contain: the builtins \<open>JSON.parse\<close> and
  \<open>JSON.stringify\<close>, \<open>UUID.v4\<close> of ember-uuid (\<open>uuid_v4 env k\<close> is the value of its
  \<open>k\<close>-th call), the transport's \<open>send\<close> (\<open>transport_send env name k\<close> is the error the
  \<open>k\<close>-th send on the channel \<open>name\<close> throws, if it throws; the main socket has the empty
  name), the adapters' \<open>pathForType\<close> and the overridable hook \<open>shouldSubscribe\<close>.
\<close>

record internalModel =
  modelName :: string
  internal_id :: string
  internal_data :: json

record model =
  internalModel_of :: internalModel
  model_id :: string

record env =
  JSON_parse :: "string \<Rightarrow> js_error + json"
  JSON_stringify :: "json \<Rightarrow> string"
  uuid_v4 :: "nat \<Rightarrow> string"
  transport_send :: "string \<Rightarrow> nat \<Rightarrow> js_error option"
  pathForType :: "string \<Rightarrow> string"
  shouldSubscribe :: "model \<Rightarrow> bool"

subsection \<open>An example environment\<close>

text \<open>
  A concrete environment for the closed examples below. \<open>example_parse\<close> decodes the
  frames the examples use as \<open>JSON.parse\<close> does and rejects every other text;
  \<open>example_stringify\<close> writes a document without insignificant white space, escaping
  quotation marks and backslashes; the \<open>k\<close>-th id is \<open>k + 1\<close> letters \<open>u\<close>; the transport
  never throws; a type's path is its name followed by \<open>s\<close>; every model is subscribed to.
\<close>

definition backslash :: char where
  "backslash = CHR 0x5C"

definition frame_ok :: string where
  \<open>frame_ok = ''{"id":"u","status":0}''\<close>

definition frame_failed :: string where
  \<open>frame_failed = ''{"id":"u","status":1}''\<close>

definition frame_unknown :: string where
  \<open>frame_unknown = ''{"id":"zzz","status":0}''\<close>

definition frame_update :: string where
  \<open>frame_update = ''{"model":"article","id":"1","payload":"{'' @ [backslash] @ ''"title''
     @ [backslash] @ ''":'' @ [backslash] @ ''"x'' @ [backslash] @ ''"}"}''\<close>

definition frame_update_payload :: string where
  \<open>frame_update_payload = ''{"title":"x"}''\<close>

definition frame_delete :: string where
  \<open>frame_delete = ''{"model":"article","id":"1"}''\<close>

definition example_parse :: "string \<Rightarrow> js_error + json" where
  "example_parse s =
     (if s = frame_ok then Inr (JObj [(''id'', JStr ''u''), (''status'', JNum ''0'')])
      else if s = frame_failed then Inr (JObj [(''id'', JStr ''u''), (''status'', JNum ''1'')])
      else if s = frame_unknown then Inr (JObj [(''id'', JStr ''zzz''), (''status'', JNum ''0'')])
      else if s = frame_update then
        Inr (JObj [(''model'', JStr ''article''), (''id'', JStr ''1''),
                   (''payload'', JStr frame_update_payload)])
      else if s = frame_update_payload then Inr (JObj [(''title'', JStr ''x'')])
      else if s = frame_delete then Inr (JObj [(''model'', JStr ''article''), (''id'', JStr ''1'')])
      else Inl SyntaxError)"

fun escape :: "string \<Rightarrow> string" where
  "escape [] = []"
| "escape (c # cs) =
     (if c = CHR 0x22 \<or> c = backslash then backslash # c # escape cs else c # escape cs)"

definition quote :: "string \<Rightarrow> string" where
  "quote s = CHR 0x22 # escape s @ [CHR 0x22]"

fun example_stringify :: "json \<Rightarrow> string"
  and stringify_elements :: "json list \<Rightarrow> string list"
  and stringify_members :: "(string \<times> json) list \<Rightarrow> string list" where
  "example_stringify JNull = ''null''"
| "example_stringify (JBool b) = (if b then ''true'' else ''false'')"
| "example_stringify (JNum s) = s"
| "example_stringify (JStr s) = quote s"
| "example_stringify (JArr xs) = ''['' @ join_comma (stringify_elements xs) @ '']''"
| "example_stringify (JObj fs) = ''{'' @ join_comma (stringify_members fs) @ ''}''"
| "stringify_elements [] = []"
| "stringify_elements (x # xs) = example_stringify x # stringify_elements xs"
| "stringify_members [] = []"
| "stringify_members ((k, v) # fs) =
     (quote k @ '':'' @ example_stringify v) # stringify_members fs"

definition example_env :: env where
  "example_env =
     \<lparr>JSON_parse = example_parse,
      JSON_stringify = example_stringify,
      uuid_v4 = (\<lambda>k. replicate (Suc k) CHR ''u''),
      transport_send = (\<lambda>name k. None),
      pathForType = (\<lambda>name. name @ ''s''),
      shouldSubscribe = (\<lambda>m. True)\<rparr>"

section \<open>CementChannel\<close>

text \<open>
  A promise returned by \<open>send\<close> is pending, resolved with the decoded response, or
  rejected, with the decoded response or with what the executor threw. Settling a promise
  that is already settled does nothing.
\<close>

datatype reason = Response json | Exception js_error

datatype promise = Pending | Resolved json | Rejected reason

definition settle :: "nat \<Rightarrow> promise \<Rightarrow> promise list \<Rightarrow> promise list" where
  "settle p v ps = (if p < length ps \<and> ps ! p = Pending then ps[p := v] else ps)"

text \<open>
  \<open>cementMessages\<close> maps a correlation id to the \<open>{resolve, reject}\<close> pair of a promise,
  here the index of that promise in \<open>promises\<close>, the promises \<open>send\<close> has returned so far.
  \<open>channel\<close> is the underlying transport channel: the frames handed to its \<open>send\<close>.
\<close>

record CementChannel =
  cementMessages :: "(string \<times> nat) list"
  channel :: "string list"
  promises :: "promise list"

definition CementChannel_init :: CementChannel where
  "CementChannel_init = \<lparr>cementMessages = [], channel = [], promises = []\<rparr>"

text \<open>
  \<open>onMessage\<close>: every throw of the source happens before its first mutation, so a throw
  is \<open>Inl\<close> and leaves the channel as it was.
\<close>

definition onMessage :: "env \<Rightarrow> string \<Rightarrow> CementChannel \<Rightarrow> js_error + CementChannel" where
  "onMessage env message c =
     (case JSON_parse env message of
        Inl e \<Rightarrow> Inl e
      | Inr data \<Rightarrow>
          (case get_prop data ''status'' of
             Inl e \<Rightarrow> Inl e
           | Inr status \<Rightarrow>
               (case get_prop data ''id'' of
                  Inl e \<Rightarrow> Inl e
                | Inr i \<Rightarrow>
                    (case map_of (cementMessages c) (ToPropertyKey i) of
                       None \<Rightarrow> Inl TypeError
                     | Some p \<Rightarrow>
                         Inr (c\<lparr>promises :=
                                  settle p (if status = Some (JNum ''0'') then Resolved data
                                            else Rejected (Response data)) (promises c),
                                cementMessages :=
                                  AList.delete (ToPropertyKey i) (cementMessages c)\<rparr>)))))"

text \<open>
  \<open>send\<close> returns the new promise. The executor draws the id, hands the frame to the
  transport and then records the pending request; when the transport throws, the promise
  is rejected with the error and nothing is recorded.
\<close>

definition send :: "env \<Rightarrow> string \<Rightarrow> CementChannel \<Rightarrow> nat \<times> CementChannel" where
  "send env data c =
     (let p = length (promises c);
          i = uuid_v4 env p;
          frame = JSON_stringify env (JObj [(''id'', JStr i), (''data'', JStr data)])
      in case transport_send env ''subscribe'' p of
           Some e \<Rightarrow>
             (p, c\<lparr>channel := channel c @ [frame],
                   promises := promises c @ [Rejected (Exception e)]\<rparr>)
         | None \<Rightarrow>
             (p, c\<lparr>channel := channel c @ [frame],
                   cementMessages := AList.update i p (cementMessages c),
                   promises := promises c @ [Pending]\<rparr>))"

text \<open>
  A channel's life is a sequence of \<open>send\<close> calls and of frames received. A frame whose
  handler throws leaves the channel as it was: the exception goes to the transport's
  dispatcher.
\<close>

datatype channel_event = Send string | Receive string

definition channel_step :: "env \<Rightarrow> CementChannel \<Rightarrow> channel_event \<Rightarrow> CementChannel" where
  "channel_step env c ev =
     (case ev of
        Send data \<Rightarrow> snd (send env data c)
      | Receive message \<Rightarrow>
          (case onMessage env message c of Inl e \<Rightarrow> c | Inr c' \<Rightarrow> c'))"

definition channel_run :: "env \<Rightarrow> channel_event list \<Rightarrow> CementChannel \<Rightarrow> CementChannel" where
  "channel_run env es c = foldl (channel_step env) c es"

fun received :: "channel_event list \<Rightarrow> string list" where
  "received [] = []"
| "received (Send data # es) = received es"
| "received (Receive message # es) = message # received es"

text \<open>
  \<open>response_for env i message\<close>: the frame decodes to a value whose \<open>id\<close>, as a property
  key, is \<open>i\<close>. \<open>outcome env message\<close>: what \<open>onMessage\<close> settles the promise with.
\<close>

definition response_for :: "env \<Rightarrow> string \<Rightarrow> string \<Rightarrow> bool" where
  "response_for env i message =
     (case JSON_parse env message of
        Inl e \<Rightarrow> False
      | Inr data \<Rightarrow>
          (case get_prop data ''id'' of
             Inl e \<Rightarrow> False
           | Inr v \<Rightarrow> ToPropertyKey v = i))"

definition outcome :: "env \<Rightarrow> string \<Rightarrow> promise" where
  "outcome env message =
     (case JSON_parse env message of
        Inl e \<Rightarrow> Pending
      | Inr data \<Rightarrow>
          (if get_prop data ''status'' = Inr (Some (JNum ''0'')) then Resolved data
           else Rejected (Response data)))"

subsection \<open>The promise of a send is settled by the first response with its id\<close>

text \<open>
  Two facts about the channels that arise: every recorded request points at a promise
  that exists (\<open>handles_allocated\<close>), and a request \<open>awaiting\<close> its response is recorded
  under its id alone, its promise pending.
\<close>

definition handles_allocated :: "CementChannel \<Rightarrow> bool" where
  "handles_allocated c = (\<forall>k h. map_of (cementMessages c) k = Some h \<longrightarrow> h < length (promises c))"

lemma handles_allocated_init: "handles_allocated CementChannel_init"
  by (simp add: handles_allocated_def CementChannel_init_def)

lemma settle_length [simp]: "length (settle p v ps) = length ps"
  by (simp add: settle_def)

lemma map_of_delete: "map_of (AList.delete k xs) k' = (if k' = k then None else map_of xs k')"
  by (simp add: AList.delete_conv')

lemma handles_allocated_send: "handles_allocated c \<Longrightarrow> handles_allocated (snd (send env data c))"
  by (auto simp: handles_allocated_def send_def Let_def AList.update_conv' less_Suc_eq split: option.splits)

lemma handles_allocated_onMessage: "handles_allocated c \<Longrightarrow> onMessage env m c = Inr c' \<Longrightarrow> handles_allocated c'"
  by (auto simp: handles_allocated_def onMessage_def map_of_delete split: sum.splits option.splits if_splits)

lemma handles_allocated_step: "handles_allocated c \<Longrightarrow> handles_allocated (channel_step env c ev)"
  by (auto simp: channel_step_def handles_allocated_send handles_allocated_onMessage split: channel_event.splits sum.splits)

lemma length_promises_step: "length (promises c) \<le> length (promises (channel_step env c ev))"
  by (auto simp: channel_step_def send_def Let_def onMessage_def split: channel_event.splits sum.splits option.splits)

definition awaiting :: "nat \<Rightarrow> string \<Rightarrow> CementChannel \<Rightarrow> bool" where
  "awaiting p i c = (map_of (cementMessages c) i = Some p \<and> p < length (promises c) \<and> promises c ! p = Pending
     \<and> (\<forall>k. k \<noteq> i \<longrightarrow> map_of (cementMessages c) k \<noteq> Some p))"

lemma settled_step:
  "p < length (promises c) \<Longrightarrow> promises c ! p \<noteq> Pending \<Longrightarrow>
   promises (channel_step env c ev) ! p = promises c ! p"
  by (auto simp: channel_step_def send_def Let_def onMessage_def settle_def nth_append nth_list_update
      split: channel_event.splits sum.splits option.splits)

lemma awaiting_send:
  "handles_allocated c \<Longrightarrow> awaiting p i c \<Longrightarrow> uuid_v4 env (length (promises c)) \<noteq> i \<Longrightarrow> awaiting p i (snd (send env data c))"
  by (auto simp: awaiting_def handles_allocated_def send_def Let_def AList.update_conv' nth_append split: option.splits)

lemma awaiting_receive_other:
  "awaiting p i c \<Longrightarrow> \<not> response_for env i m \<Longrightarrow> onMessage env m c = Inr c' \<Longrightarrow> awaiting p i c'"
  by (auto simp: awaiting_def onMessage_def response_for_def map_of_delete settle_def nth_list_update
      split: sum.splits option.splits if_splits)

lemma awaiting_receive_match:
  "awaiting p i c \<Longrightarrow> response_for env i m \<Longrightarrow>
     \<exists>c'. onMessage env m c = Inr c' \<and> promises c' ! p = outcome env m \<and> length (promises c') = length (promises c)"
  by (auto simp: awaiting_def onMessage_def response_for_def outcome_def settle_def get_prop_def
      split: sum.splits option.splits if_splits json.splits)

lemma channel_run_append: "channel_run env (es @ es') c = channel_run env es' (channel_run env es c)"
  by (simp add: channel_run_def)

lemma channel_run_Cons: "channel_run env (e # es) c = channel_run env es (channel_step env c e)"
  by (simp add: channel_run_def)

lemma channel_run_Nil: "channel_run env [] c = c"
  by (simp add: channel_run_def)

lemma handles_allocated_run: "handles_allocated c \<Longrightarrow> handles_allocated (channel_run env es c)"
  by (induction es arbitrary: c) (simp_all add: channel_run_Nil channel_run_Cons handles_allocated_step)

lemma settled_channel_run:
  "p < length (promises c) \<Longrightarrow> promises c ! p \<noteq> Pending \<Longrightarrow>
   promises (channel_run env es c) ! p = promises c ! p"
proof (induction es arbitrary: c)
  case Nil
  then show ?case by (simp add: channel_run_Nil)
next
  case (Cons e es)
  have l: "p < length (promises (channel_step env c e))"
    using Cons.prems(1) length_promises_step [of c env e] by simp
  have s: "promises (channel_step env c e) ! p = promises c ! p"
    using Cons.prems by (rule settled_step)
  show ?case
    using Cons.IH [OF l] s Cons.prems(2) by (simp add: channel_run_Cons)
qed

lemma outcome_settled: "response_for env i m \<Longrightarrow> outcome env m \<noteq> Pending"
  by (auto simp: response_for_def outcome_def split: sum.splits)

lemma awaiting_run:
  assumes "handles_allocated c" and "awaiting p i c"
    and "\<forall>k\<ge>length (promises c). uuid_v4 env k \<noteq> i"
  shows "promises (channel_run env es c) ! p =
     (case find (response_for env i) (received es) of None \<Rightarrow> Pending | Some m \<Rightarrow> outcome env m)"
  using assms
proof (induction es arbitrary: c)
  case Nil
  then show ?case by (simp add: channel_run_Nil awaiting_def)
next
  case (Cons e es)
  show ?case
  proof (cases e)
    case (Send data)
    let ?c = "snd (send env data c)"
    have w: "handles_allocated ?c" using Cons.prems(1) by (rule handles_allocated_send)
    have t: "awaiting p i ?c"
      using Cons.prems by (intro awaiting_send) auto
    have f: "\<forall>k\<ge>length (promises ?c). uuid_v4 env k \<noteq> i"
      using Cons.prems(3) by (auto simp: send_def Let_def split: option.splits)
    show ?thesis
      using Cons.IH [OF w t f] Send by (simp add: channel_run_Cons channel_step_def)
  next
    case (Receive m)
    show ?thesis
    proof (cases "response_for env i m")
      case True
      obtain c' where c': "onMessage env m c = Inr c'" "promises c' ! p = outcome env m"
        "length (promises c') = length (promises c)"
        using awaiting_receive_match [OF Cons.prems(2) True] by blast
      have "promises (channel_run env es c') ! p = promises c' ! p"
        using c' Cons.prems(2) outcome_settled [OF True]
        by (intro settled_channel_run) (auto simp: awaiting_def)
      then show ?thesis
        using Receive True c' by (simp add: channel_run_Cons channel_step_def)
    next
      case False
      show ?thesis
      proof (cases "onMessage env m c")
        case (Inl e)
        then show ?thesis
          using Cons.IH [OF Cons.prems] Receive False by (simp add: channel_run_Cons channel_step_def)
      next
        case (Inr c')
        have w: "handles_allocated c'" using Cons.prems(1) Inr by (rule handles_allocated_onMessage)
        have t: "awaiting p i c'" using Cons.prems(2) False Inr by (rule awaiting_receive_other)
        have "length (promises c') = length (promises c)"
          using Inr by (auto simp: onMessage_def split: sum.splits option.splits)
        then have f: "\<forall>k\<ge>length (promises c'). uuid_v4 env k \<noteq> i"
          using Cons.prems(3) by simp
        show ?thesis
          using Cons.IH [OF w t f] Receive False Inr by (simp add: channel_run_Cons channel_step_def)
      qed
    qed
  qed
qed

lemma awaiting_after_send:
  "handles_allocated c \<Longrightarrow> transport_send env ''subscribe'' (length (promises c)) = None \<Longrightarrow>
   awaiting (length (promises c)) (uuid_v4 env (length (promises c))) (snd (send env data c))"
  by (auto simp: awaiting_def handles_allocated_def send_def Let_def AList.update_conv')


lemmas example_simps =
  example_env_def example_parse_def frame_ok_def frame_failed_def frame_unknown_def
  frame_update_def frame_update_payload_def frame_delete_def backslash_def

lemmas channel_simps =
  channel_run_def channel_step_def send_def onMessage_def CementChannel_init_def
  get_prop_def ToPropertyKey_def settle_def response_for_def outcome_def Let_def

text \<open>
  C1 (as amended). Take any channel history \<open>es1\<close>, a \<open>send\<close>, and any later history
  \<open>es2\<close> of further sends and received frames, and suppose \<open>UUID.v4\<close> never returns the
  id of this send again. Then the promise \<open>send\<close> returned is determined by the first
  frame received after it whose id (as a property key) is the id of the send: it is
  resolved with the decoded frame when that frame's status is the number 0, rejected with
  it otherwise, and pending when there is no such frame. Frames with other ids, frames
  that do not decode, later frames with the same id and other sends never change it. When
  the transport throws in \<open>send\<close>, the promise is rejected with that error at once.
\<close>

theorem send_settled_by_first_response:
  assumes "\<forall>k>length (promises (channel_run env es1 CementChannel_init)).
             uuid_v4 env k \<noteq> uuid_v4 env (length (promises (channel_run env es1 CementChannel_init)))"
  shows "let c = channel_run env es1 CementChannel_init;
             p = fst (send env data c);
             c' = channel_run env (es1 @ Send data # es2) CementChannel_init
         in p = length (promises c) \<and>
            promises c' ! p =
              (case transport_send env ''subscribe'' p of
                 Some e \<Rightarrow> Rejected (Exception e)
               | None \<Rightarrow>
                   (case find (response_for env (uuid_v4 env p)) (received es2) of
                      None \<Rightarrow> Pending
                    | Some m \<Rightarrow> outcome env m))"
proof -
  let ?c = "channel_run env es1 CementChannel_init"
  let ?p = "length (promises ?c)"
  let ?s = "snd (send env data ?c)"
  have w: "handles_allocated ?c" by (rule handles_allocated_run [OF handles_allocated_init])
  have p: "fst (send env data ?c) = ?p"
    by (simp add: send_def Let_def split: option.splits)
  have r: "channel_run env (es1 @ Send data # es2) CementChannel_init = channel_run env es2 ?s"
    by (simp add: channel_run_append channel_run_Cons channel_step_def)
  have l: "length (promises ?s) = Suc ?p"
    by (simp add: send_def Let_def split: option.splits)
  have main: "promises (channel_run env es2 ?s) ! ?p =
      (case transport_send env ''subscribe'' ?p of
         Some e \<Rightarrow> Rejected (Exception e)
       | None \<Rightarrow>
           (case find (response_for env (uuid_v4 env ?p)) (received es2) of
              None \<Rightarrow> Pending
            | Some m \<Rightarrow> outcome env m))"
  proof (cases "transport_send env ''subscribe'' ?p")
    case None
    have t: "awaiting ?p (uuid_v4 env ?p) ?s" using w None by (rule awaiting_after_send)
    have f: "\<forall>k\<ge>length (promises ?s). uuid_v4 env k \<noteq> uuid_v4 env ?p"
      using assms l by (simp add: Suc_le_eq)
    show ?thesis
      using awaiting_run [OF handles_allocated_send [OF w] t f] None by simp
  next
    case (Some e)
    have v: "promises ?s ! ?p = Rejected (Exception e)"
      using Some by (simp add: send_def Let_def)
    have "promises (channel_run env es2 ?s) ! ?p = promises ?s ! ?p"
      using l v by (intro settled_channel_run) auto
    then show ?thesis using Some v by simp
  qed
  show ?thesis
    unfolding Let_def p r using main by blast
qed

theorem send_settled_by_first_response_witness:
  "promises (channel_run example_env
       [Send ''d'', Receive frame_unknown, Send ''e'', Receive frame_ok, Receive frame_failed]
       CementChannel_init) ! 0
   = Resolved (JObj [(''id'', JStr ''u''), (''status'', JNum ''0'')])"
proof -
  have fresh: "\<forall>k>length (promises (channel_run example_env [] CementChannel_init)).
      uuid_v4 example_env k \<noteq>
      uuid_v4 example_env (length (promises (channel_run example_env [] CementChannel_init)))"
    by (simp add: channel_run_def CementChannel_init_def example_env_def)
  have "fst (send example_env ''d'' (channel_run example_env [] CementChannel_init)) = 0"
    by (simp add: channel_simps example_simps)
  then show ?thesis
    using send_settled_by_first_response [OF fresh, of "''d''"
        "[Receive frame_unknown, Send ''e'', Receive frame_ok, Receive frame_failed]"]
    by (simp add: Let_def response_for_def outcome_def get_prop_def ToPropertyKey_def
        example_simps)
qed

text \<open>
  C1 as stated fails: after a response with the id of the send and status 1, a second
  frame with the same id and status 0 arrives, and the promise is rejected, not resolved.
\<close>

theorem send_resolves_iff_counterexample:
  "promises (channel_run example_env [Send ''d'', Receive frame_failed, Receive frame_ok]
       CementChannel_init) ! 0
     = Rejected (Response (JObj [(''id'', JStr ''u''), (''status'', JNum ''1'')]))
   \<and> response_for example_env (uuid_v4 example_env 0) frame_ok
   \<and> outcome example_env frame_ok
     = Resolved (JObj [(''id'', JStr ''u''), (''status'', JNum ''0'')])"
  by (simp add: channel_simps example_simps)

section \<open>RealtimeSocket and the store mixin\<close>

text \<open>
  The promise of \<open>sendConnectionMessage\<close> is pending, resolved, or rejected with an error.
  \<open>connection_handler\<close> is the function it registers with \<open>socket.onMessage\<close>, as a
  transformation of that promise; \<open>resolve\<close> and \<open>reject\<close> do nothing to a settled promise.
\<close>

datatype handshake = HPending | HResolved | HRejected js_error

definition resolve_handshake :: "handshake \<Rightarrow> handshake" where
  "resolve_handshake h = (if h = HPending then HResolved else h)"

definition reject_handshake :: "js_error \<Rightarrow> handshake \<Rightarrow> handshake" where
  "reject_handshake e h = (if h = HPending then HRejected e else h)"

definition connection_handler :: "string \<Rightarrow> handshake \<Rightarrow> handshake" where
  "connection_handler message h =
     (if message = ''CONNECTION_TIMEOUT'' then
        reject_handshake (Error ''Did not send a connection message in time'') h
      else if message = ''CONNECTION_DISALLOWED'' then
        reject_handshake (Error ''Connection was not accepted'') h
      else if message = ''CONNECTION_ACCEPTED'' then resolve_handshake h
      else h)"

text \<open>
  An instance of \<open>socketOnConnectedTask\<close> waits for the host's \<open>connectionMessage()\<close>,
  then for the promise of \<open>sendConnectionMessage\<close>, and ends completed or failed.
\<close>

datatype task = AwaitingConnectionMessage | AwaitingHandshake nat | Completed | Failed js_error

text \<open>
  \<open>glue_socket\<close> is the transport's main socket (the field \<open>socket\<close> of the source): the
  messages handed to its \<open>send\<close>. \<open>socket_onMessage\<close> is the handler registered on it, named
  by the promise it settles; the transport keeps one handler, the last registered.
  \<open>handshakes\<close> are the promises \<open>sendConnectionMessage\<close> has created and
  \<open>socketOnConnectedTask\<close> the instances performed. \<open>logged\<close> are the calls of
  \<open>Ember.Logger.error\<close>.
\<close>

record RealtimeSocket =
  glue_socket :: "string list"
  socket_onMessage :: "nat option"
  state :: string
  connected :: bool
  subscribeCementChannel :: CementChannel
  handshakes :: "handshake list"
  socketOnConnectedTask :: "task list"
  logged :: "string list list"

definition RealtimeSocket_init :: RealtimeSocket where
  "RealtimeSocket_init =
     \<lparr>glue_socket = [], socket_onMessage = None, state = ''disconnected'', connected = False,
      subscribeCementChannel = CementChannel_init, handshakes = [],
      socketOnConnectedTask = [], logged = []\<rparr>"

text \<open>
  Calls that leave the code: into the host store (\<open>pushPayload\<close>, and \<open>find\<close>, which
  \<open>deleteRecordTask\<close> calls first; what the task does once \<open>find\<close> has answered,
  \<open>deleteRecord()\<close> on the record found, is not modelled), and the callbacks the socket
  invokes, with their arguments. An \<open>undefined\<close> model name is \<open>None\<close>.
\<close>

datatype host_call =
    PushPayload "string option" json
  | Find "string option" "json option"

datatype callback =
    OnConnected
  | OnDisconnected
  | OnModelUpdated "json option" "json option" json
  | OnModelDeleted "json option" "json option"

text \<open>
  The store with the mixin. \<open>internalModels\<close> are the internal models the host store
  holds, by reference: the objects the superclass's \<open>_push\<close> returns and the mixin reads.
  \<open>subscribeTask\<close> are the instances performed: model name, id and the promise of the
  subscribe request. \<open>uncaught\<close> are the exceptions that left an event handler or \<open>_push\<close>.
\<close>

record store =
  internalModels :: "nat \<Rightarrow> internalModel"
  subscriptions :: "(string \<times> string list) list"
  jsonapiModelNames :: "(string \<times> string) list"
  socket :: RealtimeSocket
  subscribeTask :: "(string \<times> string \<times> nat) list"
  host :: "host_call list"
  invoked :: "callback list"
  uncaught :: "js_error list"

definition store_init :: store where
  "store_init =
     \<lparr>internalModels = (\<lambda>r. \<lparr>modelName = [], internal_id = [], internal_data = JNull\<rparr>),
      subscriptions = [], jsonapiModelNames = [], socket = RealtimeSocket_init,
      subscribeTask = [], host = [], invoked = [], uncaught = []\<rparr>"

text \<open>
  What the superclass's \<open>_push\<close> returns: \<open>null\<close>, an internal model or an array of them,
  each a reference into \<open>internalModels\<close>. \<open>getRecord()\<close> gives the record of an internal
  model; a record pushed into the store has a string for its id.
\<close>

datatype pushed = PNull | POne nat | PMany "nat list"

definition getRecord :: "store \<Rightarrow> nat \<Rightarrow> model" where
  "getRecord st r =
     \<lparr>internalModel_of = internalModels st r, model_id = internal_id (internalModels st r)\<rparr>"

text \<open>
  Reading \<open>subscriptions[modelName]\<close>. The names of the members of \<open>Object.prototype\<close> are
  those of the language standard and its annex for web browsers.
\<close>

definition Object_prototype :: "string list" where
  "Object_prototype =
     [''constructor'', ''__defineGetter__'', ''__defineSetter__'', ''hasOwnProperty'',
      ''__lookupGetter__'', ''__lookupSetter__'', ''isPrototypeOf'', ''propertyIsEnumerable'',
      ''toString'', ''valueOf'', ''__proto__'', ''toLocaleString'']"

datatype 'a property = Undefined | Own 'a | Inherited

definition get_property :: "(string \<times> 'a) list \<Rightarrow> string \<Rightarrow> 'a property" where
  "get_property obj key =
     (case map_of obj key of
        Some v \<Rightarrow> Own v
      | None \<Rightarrow> if key \<in> set Object_prototype then Inherited else Undefined)"

subsection \<open>Subscribing\<close>

definition subscribe :: "env \<Rightarrow> string \<Rightarrow> string \<Rightarrow> RealtimeSocket \<Rightarrow> nat \<times> RealtimeSocket" where
  "subscribe env model_name i rs =
     (let (p, c) = send env (JSON_stringify env (JObj [(''model'', JStr model_name), (''id'', JStr i)]))
                     (subscribeCementChannel rs)
      in (p, rs\<lparr>subscribeCementChannel := c\<rparr>))"

text \<open>
  \<open>subscribeTask.perform(modelName, id)\<close>, up to its \<open>yield\<close>: what follows the yield has
  no effect on the store.
\<close>

definition subscribeTask_perform :: "env \<Rightarrow> string \<Rightarrow> string \<Rightarrow> store \<Rightarrow> store" where
  "subscribeTask_perform env name i st =
     (let jsonapiModelName = pathForType env name;
          (p, rs) = subscribe env jsonapiModelName i (socket st)
      in st\<lparr>jsonapiModelNames := AList.update jsonapiModelName name (jsonapiModelNames st),
            socket := rs,
            subscribeTask := subscribeTask st @ [(name, i, p)]\<rparr>)"

definition onConnected :: "env \<Rightarrow> store \<Rightarrow> store" where
  "onConnected env st =
     foldl (\<lambda>s (name, ids). foldl (\<lambda>s' i. subscribeTask_perform env name i s') s ids)
       st (subscriptions st)"

definition onDisconnected :: "store \<Rightarrow> store" where
  "onDisconnected st = st"

text \<open>
  The body of the loop of \<open>_push\<close>, for one model. When \<open>subscriptions[modelName]\<close> is an
  inherited member, \<open>ids\<close> is neither \<open>undefined\<close> nor an array, and the call of
  \<open>ids.includes\<close> throws a TypeError before anything is changed.
\<close>

definition push_model :: "env \<Rightarrow> store \<Rightarrow> model \<Rightarrow> js_error + store" where
  "push_model env st m =
     (if shouldSubscribe env m then
        (let name = modelName (internalModel_of m)
         in case get_property (subscriptions st) name of
              Inherited \<Rightarrow> Inl TypeError
            | found \<Rightarrow>
                (let ids = (case found of Own ids \<Rightarrow> ids | _ \<Rightarrow> [])
                 in if model_id m \<notin> set ids then
                      (let st' = (if connected (socket st)
                                  then subscribeTask_perform env name (model_id m) st else st)
                       in Inr (st'\<lparr>subscriptions :=
                                     AList.update name (ids @ [model_id m]) (subscriptions st')\<rparr>))
                    else Inr (st\<lparr>subscriptions := AList.update name ids (subscriptions st)\<rparr>)))
      else Inr st)"

text \<open>
  The loop of \<open>_push\<close>: an exception ends it, and what the earlier iterations did stays.
\<close>

fun push_models :: "env \<Rightarrow> store \<Rightarrow> model list \<Rightarrow> js_error option \<times> store" where
  "push_models env st [] = (None, st)"
| "push_models env st (m # ms) =
     (case push_model env st m of
        Inl e \<Rightarrow> (Some e, st)
      | Inr st' \<Rightarrow> push_models env st' ms)"

text \<open>
  \<open>_push\<close>: \<open>pushed\<close> is what the superclass's \<open>_push\<close> returned; the result is the value
  returned, or the exception thrown, and the store afterwards.
\<close>

definition mixin_push :: "env \<Rightarrow> pushed \<Rightarrow> store \<Rightarrow> (js_error + pushed) \<times> store" where
  "mixin_push env p st =
     (case p of
        PNull \<Rightarrow> (Inr p, st)
      | _ \<Rightarrow>
          (let models = (case p of
                           PMany ims \<Rightarrow> map (getRecord st) ims
                         | POne im \<Rightarrow> [getRecord st im]
                         | PNull \<Rightarrow> []);
               (thrown, st') = push_models env st models
           in (case thrown of Some e \<Rightarrow> Inl e | None \<Rightarrow> Inr p, st')))"

subsection \<open>Inbound notifications\<close>

definition onModelUpdated :: "json option \<Rightarrow> json option \<Rightarrow> json \<Rightarrow> store \<Rightarrow> store" where
  "onModelUpdated jsonapiModelName i payload st =
     (let name = map_of (jsonapiModelNames st) (ToPropertyKey jsonapiModelName)
      in st\<lparr>host := host st @ [PushPayload name payload]\<rparr>)"

definition onModelDeleted :: "json option \<Rightarrow> json option \<Rightarrow> store \<Rightarrow> store" where
  "onModelDeleted jsonapiModelName i st =
     (let name = map_of (jsonapiModelNames st) (ToPropertyKey jsonapiModelName)
      in st\<lparr>host := host st @ [Find name i]\<rparr>)"

text \<open>
  \<open>_onModelUpdated\<close> and \<open>_onModelDeleted\<close> of the socket. \<open>JSON.parse\<close> converts its
  argument to a string first, as a property key is converted.
\<close>

definition socket_onModelUpdated :: "env \<Rightarrow> string \<Rightarrow> store \<Rightarrow> js_error + store" where
  "socket_onModelUpdated env data st =
     (case JSON_parse env data of
        Inl e \<Rightarrow> Inl e
      | Inr message \<Rightarrow>
          (case get_prop message ''model'' of
             Inl e \<Rightarrow> Inl e
           | Inr m \<Rightarrow>
               (case get_prop message ''id'' of
                  Inl e \<Rightarrow> Inl e
                | Inr i \<Rightarrow>
                    (case get_prop message ''payload'' of
                       Inl e \<Rightarrow> Inl e
                     | Inr pl \<Rightarrow>
                         (case JSON_parse env (ToPropertyKey pl) of
                            Inl e \<Rightarrow> Inl e
                          | Inr payload \<Rightarrow>
                              Inr (onModelUpdated m i payload
                                     (st\<lparr>invoked := invoked st @ [OnModelUpdated m i payload]\<rparr>)))))))"

definition socket_onModelDeleted :: "env \<Rightarrow> string \<Rightarrow> store \<Rightarrow> js_error + store" where
  "socket_onModelDeleted env data st =
     (case JSON_parse env data of
        Inl e \<Rightarrow> Inl e
      | Inr message \<Rightarrow>
          (case get_prop message ''model'' of
             Inl e \<Rightarrow> Inl e
           | Inr m \<Rightarrow>
               (case get_prop message ''id'' of
                  Inl e \<Rightarrow> Inl e
                | Inr i \<Rightarrow>
                    Inr (onModelDeleted m i
                           (st\<lparr>invoked := invoked st @ [OnModelDeleted m i]\<rparr>)))))"

subsection \<open>Connection lifecycle\<close>

definition socketOnError :: "string list \<Rightarrow> store \<Rightarrow> store" where
  "socketOnError args st =
     st\<lparr>socket := (socket st)\<lparr>logged := logged (socket st) @ [''socket error'' # args]\<rparr>\<rparr>"

text \<open>
  \<open>socketOnConnected\<close> performs the task, which calls the host's \<open>connectionMessage()\<close>
  and waits for its promise.
\<close>

definition socketOnConnected :: "store \<Rightarrow> store" where
  "socketOnConnected st =
     st\<lparr>socket := (socket st)\<lparr>socketOnConnectedTask :=
            socketOnConnectedTask (socket st) @ [AwaitingConnectionMessage]\<rparr>\<rparr>"

definition socketOnDisconnected :: "store \<Rightarrow> store" where
  "socketOnDisconnected st =
     onDisconnected (st\<lparr>socket := (socket st)\<lparr>connected := False\<rparr>,
                       invoked := invoked st @ [OnDisconnected]\<rparr>)"

text \<open>
  \<open>sendConnectionMessage\<close> returns its promise. The executor registers the handler and
  sends the message; when the transport throws, the promise is rejected with the error.
\<close>

definition sendConnectionMessage :: "env \<Rightarrow> string \<Rightarrow> RealtimeSocket \<Rightarrow> nat \<times> RealtimeSocket" where
  "sendConnectionMessage env connectionMessage rs =
     (let h = length (handshakes rs);
          rs' = rs\<lparr>socket_onMessage := Some h,
                    glue_socket := glue_socket rs @ [connectionMessage]\<rparr>
      in case transport_send env [] h of
           Some e \<Rightarrow> (h, rs'\<lparr>handshakes := handshakes rs @ [HRejected e]\<rparr>)
         | None \<Rightarrow> (h, rs'\<lparr>handshakes := handshakes rs @ [HPending]\<rparr>))"

definition set_task :: "nat \<Rightarrow> task \<Rightarrow> store \<Rightarrow> store" where
  "set_task k t st =
     st\<lparr>socket := (socket st)\<lparr>socketOnConnectedTask :=
            (socketOnConnectedTask (socket st))[k := t]\<rparr>\<rparr>"

text \<open>
  The promise of \<open>connectionMessage()\<close> of the task \<open>k\<close> settles and the task goes on:
  with a message, it calls \<open>sendConnectionMessage\<close> and waits for the promise returned;
  with an error, it fails.
\<close>

definition connectionMessage_settled :: "env \<Rightarrow> nat \<Rightarrow> js_error + string \<Rightarrow> store \<Rightarrow> store" where
  "connectionMessage_settled env k r st =
     (if k < length (socketOnConnectedTask (socket st))
         \<and> socketOnConnectedTask (socket st) ! k = AwaitingConnectionMessage then
        (case r of
           Inl e \<Rightarrow> set_task k (Failed e) st
         | Inr connectionMessage \<Rightarrow>
             (let (h, rs) = sendConnectionMessage env connectionMessage (socket st)
              in set_task k (AwaitingHandshake h) (st\<lparr>socket := rs\<rparr>)))
      else st)"

text \<open>
  A message on the main socket goes to the registered handler, which settles its promise
  or leaves it alone. The handler does no more than that: the task that waits for the
  promise goes on later.
\<close>

definition socket_message :: "string \<Rightarrow> store \<Rightarrow> store" where
  "socket_message message st =
     (case socket_onMessage (socket st) of
        None \<Rightarrow> st
      | Some h \<Rightarrow>
          (if h < length (handshakes (socket st)) then
             st\<lparr>socket := (socket st)\<lparr>handshakes :=
                    (handshakes (socket st))
                      [h := connection_handler message (handshakes (socket st) ! h)]\<rparr>\<rparr>
           else st))"

text \<open>
  The task \<open>k\<close> goes on with \<open>h\<close>, the promise of \<open>sendConnectionMessage\<close> it waits for:
  after a resolution it sets \<open>connected\<close> and calls \<open>onConnected\<close>, after a rejection it
  fails, and while the promise is pending it keeps waiting. \<open>awaited\<close> is that promise.
\<close>

definition socketOnConnectedTask_resume :: "env \<Rightarrow> handshake \<Rightarrow> store \<Rightarrow> nat \<Rightarrow> store" where
  "socketOnConnectedTask_resume env h st k =
     (case h of
        HPending \<Rightarrow> st
      | HRejected e \<Rightarrow> set_task k (Failed e) st
      | HResolved \<Rightarrow>
          (let st' = set_task k Completed st
           in onConnected env
                (st'\<lparr>socket := (socket st')\<lparr>connected := True\<rparr>,
                      invoked := invoked st' @ [OnConnected]\<rparr>)))"

definition awaited :: "store \<Rightarrow> nat \<Rightarrow> handshake option" where
  "awaited st k =
     (if k < length (socketOnConnectedTask (socket st)) then
        (case socketOnConnectedTask (socket st) ! k of
           AwaitingHandshake h \<Rightarrow>
             (if h < length (handshakes (socket st)) then Some (handshakes (socket st) ! h)
              else None)
         | _ \<Rightarrow> None)
      else None)"

definition task_resumed :: "env \<Rightarrow> nat \<Rightarrow> store \<Rightarrow> store" where
  "task_resumed env k st =
     (case awaited st k of
        None \<Rightarrow> st
      | Some h \<Rightarrow> socketOnConnectedTask_resume env h st k)"

text \<open>One iteration of \<open>updateSocketStateTask\<close>, the socket reporting \<open>newState\<close>.\<close>

definition updateSocketState :: "string \<Rightarrow> store \<Rightarrow> store" where
  "updateSocketState newState st =
     (if newState \<noteq> state (socket st) then st\<lparr>socket := (socket st)\<lparr>state := newState\<rparr>\<rparr>
      else st)"

subsection \<open>Events\<close>

text \<open>
  Everything the code reacts to: the transport's events, the settling of the host's
  \<open>connectionMessage()\<close> promise of a task, messages on the main socket and on the three
  channels, a task of \<open>socketOnConnectedTask\<close> going on after the promise it waits for,
  the timer of the state poll, and the store calling \<open>_push\<close>: \<open>Push ims p\<close> is a call in
  which the superclass's \<open>_push\<close> leaves the internal models \<open>ims\<close> and returns \<open>p\<close>.
  JavaScript runs one handler at a time, to its end; an exception that leaves it is
  recorded in \<open>uncaught\<close>. \<open>perform\<close> runs a task up to its first \<open>yield\<close> within the
  handler that calls it. A task that waits for a promise goes on in a turn of its own
  once the promise has settled; when that turn comes is decided by ember-concurrency and
  the transport, which are not part of the repository, so any other event may be
  handled before it.
\<close>

datatype event =
    SocketError "string list"
  | SocketConnected
  | SocketDisconnected
  | ConnectionMessageSettled nat "js_error + string"
  | SocketMessage string
  | TaskResumed nat
  | SubscribeMessage string
  | UpdatedMessage string
  | DeletedMessage string
  | StatePolled string
  | Push "nat \<Rightarrow> internalModel" pushed

definition throw :: "js_error \<Rightarrow> store \<Rightarrow> store" where
  "throw e st = st\<lparr>uncaught := uncaught st @ [e]\<rparr>"

definition step :: "env \<Rightarrow> store \<Rightarrow> event \<Rightarrow> store" where
  "step env st ev =
     (case ev of
        SocketError args \<Rightarrow> socketOnError args st
      | SocketConnected \<Rightarrow> socketOnConnected st
      | SocketDisconnected \<Rightarrow> socketOnDisconnected st
      | ConnectionMessageSettled k r \<Rightarrow> connectionMessage_settled env k r st
      | SocketMessage message \<Rightarrow> socket_message message st
      | TaskResumed k \<Rightarrow> task_resumed env k st
      | SubscribeMessage message \<Rightarrow>
          (case onMessage env message (subscribeCementChannel (socket st)) of
             Inl e \<Rightarrow> throw e st
           | Inr c \<Rightarrow> st\<lparr>socket := (socket st)\<lparr>subscribeCementChannel := c\<rparr>\<rparr>)
      | UpdatedMessage data \<Rightarrow>
          (case socket_onModelUpdated env data st of Inl e \<Rightarrow> throw e st | Inr st' \<Rightarrow> st')
      | DeletedMessage data \<Rightarrow>
          (case socket_onModelDeleted env data st of Inl e \<Rightarrow> throw e st | Inr st' \<Rightarrow> st')
      | StatePolled newState \<Rightarrow> updateSocketState newState st
      | Push ims p \<Rightarrow>
          (case mixin_push env p (st\<lparr>internalModels := ims\<rparr>) of
             (Inl e, st') \<Rightarrow> throw e st'
           | (Inr v, st') \<Rightarrow> st'))"

definition run :: "env \<Rightarrow> event list \<Rightarrow> store \<Rightarrow> store" where
  "run env es st = foldl (step env) st es"

subsection \<open>Example runs\<close>

text \<open>
  The unfolding rules that evaluate a run, and the events of the closed examples: the
  internal models \<open>articles\<close>, two of the type \<open>article\<close> with the ids \<open>1\<close> and \<open>2\<close>, and
  \<open>posts\<close>, all of the type \<open>post\<close> with the id \<open>1\<close>; a connection whose handshake is
  accepted; and that connection followed by a push, a disconnect, a push while
  disconnected and a reconnect up to the sending of the connection message. In
  \<open>article_env\<close> the wire name of every model is \<open>article\<close>.
\<close>

lemmas store_simps =
  run_def step_def store_init_def RealtimeSocket_init_def CementChannel_init_def
  socketOnError_def socketOnConnected_def socketOnDisconnected_def onDisconnected_def
  connectionMessage_settled_def sendConnectionMessage_def set_task_def
  socket_message_def task_resumed_def awaited_def connection_handler_def
  resolve_handshake_def reject_handshake_def socketOnConnectedTask_resume_def
  onConnected_def subscribeTask_perform_def subscribe_def send_def onMessage_def settle_def
  mixin_push_def push_model_def get_property_def Object_prototype_def getRecord_def
  updateSocketState_def throw_def
  socket_onModelUpdated_def socket_onModelDeleted_def onModelUpdated_def onModelDeleted_def
  get_prop_def ToPropertyKey_def Let_def

definition article :: "string \<Rightarrow> internalModel" where
  "article i = \<lparr>modelName = ''article'', internal_id = i, internal_data = JNull\<rparr>"

definition post :: "string \<Rightarrow> internalModel" where
  "post i = \<lparr>modelName = ''post'', internal_id = i, internal_data = JNull\<rparr>"

definition articles :: "nat \<Rightarrow> internalModel" where
  "articles r = article (if r = 0 then ''1'' else ''2'')"

definition posts :: "nat \<Rightarrow> internalModel" where
  "posts r = post ''1''"

definition connect_events :: "event list" where
  "connect_events =
     [SocketConnected, ConnectionMessageSettled 0 (Inr ''hi''),
      SocketMessage ''CONNECTION_ACCEPTED'', TaskResumed 0]"

definition reconnect_events :: "event list" where
  "reconnect_events =
     connect_events @
     [Push articles (POne 0), SocketDisconnected, Push articles (POne 1),
      SocketConnected, ConnectionMessageSettled 1 (Inr ''hi'')]"

definition article_env :: env where
  "article_env = example_env\<lparr>pathForType := (\<lambda>name. ''article'')\<rparr>"

section \<open>The subscriptions registry\<close>

text \<open>
  \<open>pairs\<close> lists the (model name, id) pairs a registry holds, in the order \<open>onConnected\<close>
  visits them; \<open>performed\<close> lists the pairs \<open>subscribeTask\<close> has been performed for, in
  order. \<open>replay_ids\<close> and \<open>replay\<close> name the inner and the outer loop of \<open>onConnected\<close>.
\<close>

definition pairs :: "(string \<times> string list) list \<Rightarrow> (string \<times> string) list" where
  "pairs subs = concat (map (\<lambda>(name, ids). map (Pair name) ids) subs)"

definition performed :: "store \<Rightarrow> (string \<times> string) list" where
  "performed st = map (\<lambda>(name, i, p). (name, i)) (subscribeTask st)"

lemma subscribeTask_perform_fields:
  "subscriptions (subscribeTask_perform env n i st) = subscriptions st"
  "connected (socket (subscribeTask_perform env n i st)) = connected (socket st)"
  "handshakes (socket (subscribeTask_perform env n i st)) = handshakes (socket st)"
  "socketOnConnectedTask (socket (subscribeTask_perform env n i st)) = socketOnConnectedTask (socket st)"
  "socket_onMessage (socket (subscribeTask_perform env n i st)) = socket_onMessage (socket st)"
  "glue_socket (socket (subscribeTask_perform env n i st)) = glue_socket (socket st)"
  "state (socket (subscribeTask_perform env n i st)) = state (socket st)"
  "logged (socket (subscribeTask_perform env n i st)) = logged (socket st)"
  "host (subscribeTask_perform env n i st) = host st"
  "invoked (subscribeTask_perform env n i st) = invoked st"
  "uncaught (subscribeTask_perform env n i st) = uncaught st"
  "internalModels (subscribeTask_perform env n i st) = internalModels st"
  by (simp_all add: subscribeTask_perform_def subscribe_def Let_def split: prod.splits)

lemma performed_subscribeTask_perform:
  "performed (subscribeTask_perform env n i st) = performed st @ [(n, i)]"
  by (simp add: performed_def subscribeTask_perform_def Let_def split: prod.splits)

lemma channel_subscribeTask_perform:
  "length (channel (subscribeCementChannel (socket (subscribeTask_perform env n i st))))
     = Suc (length (channel (subscribeCementChannel (socket st))))"
  by (simp add: subscribeTask_perform_def subscribe_def send_def Let_def split: prod.splits option.splits)

definition replay_ids :: "env \<Rightarrow> string \<Rightarrow> store \<Rightarrow> string list \<Rightarrow> store" where
  "replay_ids env name s ids = foldl (\<lambda>s' i. subscribeTask_perform env name i s') s ids"

lemma replay_ids_performed:
  "performed (replay_ids env n st ids) = performed st @ map (Pair n) ids"
  by (induction ids arbitrary: st) (simp_all add: replay_ids_def performed_subscribeTask_perform)

lemma replay_ids_fields:
  "subscriptions (replay_ids env n st ids) = subscriptions st"
  "connected (socket (replay_ids env n st ids)) = connected (socket st)"
  "handshakes (socket (replay_ids env n st ids)) = handshakes (socket st)"
  "socketOnConnectedTask (socket (replay_ids env n st ids)) = socketOnConnectedTask (socket st)"
  "socket_onMessage (socket (replay_ids env n st ids)) = socket_onMessage (socket st)"
  "glue_socket (socket (replay_ids env n st ids)) = glue_socket (socket st)"
  "state (socket (replay_ids env n st ids)) = state (socket st)"
  "logged (socket (replay_ids env n st ids)) = logged (socket st)"
  "host (replay_ids env n st ids) = host st"
  "invoked (replay_ids env n st ids) = invoked st"
  "uncaught (replay_ids env n st ids) = uncaught st"
  "internalModels (replay_ids env n st ids) = internalModels st"
  by (induction ids arbitrary: st, simp_all add: replay_ids_def subscribeTask_perform_fields)+

lemma replay_ids_channel:
  "length (channel (subscribeCementChannel (socket (replay_ids env n st ids))))
     = length (channel (subscribeCementChannel (socket st))) + length ids"
  by (induction ids arbitrary: st) (simp_all add: replay_ids_def channel_subscribeTask_perform)

definition replay :: "env \<Rightarrow> store \<Rightarrow> (string \<times> string list) list \<Rightarrow> store" where
  "replay env st subs = foldl (\<lambda>s (name, ids). replay_ids env name s ids) st subs"

lemma onConnected_replay: "onConnected env st = replay env st (subscriptions st)"
  by (simp add: onConnected_def replay_def replay_ids_def)

lemma replay_performed: "performed (replay env st subs) = performed st @ pairs subs"
  by (induction subs arbitrary: st) (auto simp: replay_def pairs_def replay_ids_performed)

lemma replay_fields:
  "subscriptions (replay env st subs) = subscriptions st"
  "connected (socket (replay env st subs)) = connected (socket st)"
  "handshakes (socket (replay env st subs)) = handshakes (socket st)"
  "socketOnConnectedTask (socket (replay env st subs)) = socketOnConnectedTask (socket st)"
  "socket_onMessage (socket (replay env st subs)) = socket_onMessage (socket st)"
  "glue_socket (socket (replay env st subs)) = glue_socket (socket st)"
  "state (socket (replay env st subs)) = state (socket st)"
  "logged (socket (replay env st subs)) = logged (socket st)"
  "host (replay env st subs) = host st"
  "invoked (replay env st subs) = invoked st"
  "uncaught (replay env st subs) = uncaught st"
  "internalModels (replay env st subs) = internalModels st"
  by (induction subs arbitrary: st, auto simp: replay_def replay_ids_fields)+

lemma replay_channel:
  "length (channel (subscribeCementChannel (socket (replay env st subs))))
     = length (channel (subscribeCementChannel (socket st))) + length (pairs subs)"
  by (induction subs arbitrary: st) (auto simp: replay_def pairs_def replay_ids_channel)

lemmas onConnected_fields = replay_fields [where subs = "subscriptions st" and st = st, folded onConnected_replay] for st

lemma onConnected_performed:
  "performed (onConnected env st) = performed st @ pairs (subscriptions st)"
  by (simp add: onConnected_replay replay_performed)

lemma set_pairs: "set (pairs subs) = {(n, i). \<exists>ids. (n, ids) \<in> set subs \<and> i \<in> set ids}"
  by (auto simp: pairs_def)

lemma set_pairs_map_of:
  "distinct (map fst subs) \<Longrightarrow>
   set (pairs subs) = {(n, i). \<exists>ids. map_of subs n = Some ids \<and> i \<in> set ids}"
  by (auto simp: set_pairs)

lemma distinct_pairs:
  "distinct (map fst subs) \<Longrightarrow> (\<forall>n ids. (n, ids) \<in> set subs \<longrightarrow> distinct ids) \<Longrightarrow>
   distinct (pairs subs)"
proof (induction subs)
  case Nil
  then show ?case by (simp add: pairs_def)
next
  case (Cons a subs)
  obtain n ids where a: "a = (n, ids)" by (cases a)
  have 1: "distinct (map (Pair n) ids)"
    using Cons.prems(2) a by (simp add: distinct_map inj_on_def)
  have 2: "distinct (pairs subs)"
    using Cons by auto
  have 3: "set (map (Pair n) ids) \<inter> set (pairs subs) = {}"
    using Cons.prems(1) a by (force simp: set_pairs)
  have "pairs (a # subs) = map (Pair n) ids @ pairs subs"
    by (simp add: pairs_def a)
  then show ?case using 1 2 3 by simp
qed

text \<open>
  The registry of every store that arises: no model name twice, no id twice under a name,
  no name of a member of \<open>Object.prototype\<close>, a request performed only for a recorded
  pair, and, while connected, for every recorded pair.
\<close>

definition registry_ok :: "store \<Rightarrow> bool" where
  "registry_ok st =
     (distinct (map fst (subscriptions st))
      \<and> (\<forall>n ids. map_of (subscriptions st) n = Some ids \<longrightarrow> distinct ids)
      \<and> (\<forall>n. n \<in> set Object_prototype \<longrightarrow> map_of (subscriptions st) n = None)
      \<and> set (performed st) \<subseteq> set (pairs (subscriptions st))
      \<and> (connected (socket st) \<longrightarrow> set (pairs (subscriptions st)) \<subseteq> set (performed st)))"

lemma registry_ok_init: "registry_ok store_init"
  by (simp add: registry_ok_def store_init_def performed_def pairs_def RealtimeSocket_init_def)

lemma registry_ok_distinct_pairs: "registry_ok st \<Longrightarrow> distinct (pairs (subscriptions st))"
  by (rule distinct_pairs) (auto simp: registry_ok_def)

lemma set_pairs_update:
  "distinct (map fst subs) \<Longrightarrow>
   set (pairs (AList.update n ids subs))
     = {(m, i). m = n \<and> i \<in> set ids} \<union> {(m, i). m \<noteq> n \<and> (m, i) \<in> set (pairs subs)}"
  by (auto simp: set_pairs_map_of AList.distinct_update AList.update_conv' split: if_splits)

lemma push_model_ignored: "\<not> shouldSubscribe env m \<Longrightarrow> push_model env st m = Inr st"
  by (simp add: push_model_def)

lemma push_model_inherited:
  "shouldSubscribe env m \<Longrightarrow> map_of (subscriptions st) (modelName (internalModel_of m)) = None \<Longrightarrow>
   modelName (internalModel_of m) \<in> set Object_prototype \<Longrightarrow>
   push_model env st m = Inl TypeError"
  by (simp add: push_model_def get_property_def Let_def)

lemma push_model_tracked:
  assumes "shouldSubscribe env m"
    and "model_id m \<in> set (case map_of (subscriptions st) (modelName (internalModel_of m)) of
                              None \<Rightarrow> [] | Some ids \<Rightarrow> ids)"
  shows "push_model env st m = Inr st"
proof (cases "map_of (subscriptions st) (modelName (internalModel_of m))")
  case None
  then show ?thesis using assms(2) by simp
next
  case (Some ids)
  then show ?thesis
    using assms by (simp add: push_model_def get_property_def Let_def AList.update_triv)
qed

lemma push_model_untracked:
  assumes "shouldSubscribe env m"
    and "modelName (internalModel_of m) \<notin> set Object_prototype"
    and "model_id m \<notin> set (case map_of (subscriptions st) (modelName (internalModel_of m)) of
                              None \<Rightarrow> [] | Some ids \<Rightarrow> ids)"
  shows "push_model env st m =
     Inr (let name = modelName (internalModel_of m);
              ids = (case map_of (subscriptions st) name of None \<Rightarrow> [] | Some ids \<Rightarrow> ids);
              st' = (if connected (socket st) then subscribeTask_perform env name (model_id m) st else st)
          in st'\<lparr>subscriptions := AList.update name (ids @ [model_id m]) (subscriptions st)\<rparr>)"
  using assms
  by (cases "map_of (subscriptions st) (modelName (internalModel_of m))")
     (simp_all add: push_model_def get_property_def Let_def subscribeTask_perform_fields)

lemma tracked_iff:
  "distinct (map fst (subscriptions st)) \<Longrightarrow>
   (i \<in> set (case map_of (subscriptions st) n of None \<Rightarrow> [] | Some ids \<Rightarrow> ids))
     = ((n, i) \<in> set (pairs (subscriptions st)))"
  by (auto simp: set_pairs_map_of split: option.splits)

lemma performed_subscriptions_update [simp]:
  "performed (st\<lparr>subscriptions := x\<rparr>) = performed st"
  by (simp add: performed_def)

text \<open>
  What registering one model does to a store that arises, when \<open>shouldSubscribe\<close> accepts
  the model and its name is not inherited.
\<close>

lemma push_model_registers:
  assumes ok: "registry_ok st" and sub: "shouldSubscribe env m"
    and own: "modelName (internalModel_of m) \<notin> set Object_prototype"
  obtains s where "push_model env st m = Inr s" and "registry_ok s"
    and "set (pairs (subscriptions s))
           = insert (modelName (internalModel_of m), model_id m) (set (pairs (subscriptions st)))"
    and "performed s = performed st @
           (if connected (socket st)
               \<and> (modelName (internalModel_of m), model_id m) \<notin> set (pairs (subscriptions st))
            then [(modelName (internalModel_of m), model_id m)] else [])"
    and "connected (socket s) = connected (socket st)"
    and "\<not> connected (socket st) \<Longrightarrow> socket s = socket st \<and> subscribeTask s = subscribeTask st"
    and "(modelName (internalModel_of m), model_id m) \<in> set (pairs (subscriptions st)) \<Longrightarrow> s = st"
proof -
  let ?n = "modelName (internalModel_of m)"
  let ?i = "model_id m"
  let ?ids = "case map_of (subscriptions st) ?n of None \<Rightarrow> [] | Some ids \<Rightarrow> ids"
  let ?U = "AList.update ?n (?ids @ [?i]) (subscriptions st)"
  let ?st' = "if connected (socket st) then subscribeTask_perform env ?n ?i st else st"
  have d: "distinct (map fst (subscriptions st))" using ok by (simp add: registry_ok_def)
  have ds: "\<And>ids. map_of (subscriptions st) ?n = Some ids \<Longrightarrow> distinct ids"
    and dall: "\<forall>n ids. map_of (subscriptions st) n = Some ids \<longrightarrow> distinct ids"
    and proto: "\<forall>n. n \<in> set Object_prototype \<longrightarrow> map_of (subscriptions st) n = None"
    and sub1: "set (performed st) \<subseteq> set (pairs (subscriptions st))"
    and sub2: "connected (socket st) \<Longrightarrow> set (pairs (subscriptions st)) \<subseteq> set (performed st)"
    using ok by (simp_all add: registry_ok_def)
  have t: "(?i \<in> set ?ids) = ((?n, ?i) \<in> set (pairs (subscriptions st)))"
    using d by (rule tracked_iff)
  show thesis
  proof (cases "?i \<in> set ?ids")
    case True
    have X: "push_model env st m = Inr st" using sub True by (rule push_model_tracked)
    show thesis
    proof (rule that [of st])
      show "push_model env st m = Inr st" by (rule X)
      show "registry_ok st" by (rule ok)
      show "set (pairs (subscriptions st)) = insert (?n, ?i) (set (pairs (subscriptions st)))"
        using True t by auto
      show "performed st = performed st @
           (if connected (socket st) \<and> (?n, ?i) \<notin> set (pairs (subscriptions st))
            then [(?n, ?i)] else [])"
        using True t by simp
    qed simp_all
  next
    case ni: False
    have nt: "(?n, ?i) \<notin> set (pairs (subscriptions st))" using ni t by blast
    have di: "distinct ?ids"
    proof (cases "map_of (subscriptions st) ?n")
      case None
      then show ?thesis by simp
    next
      case (Some ids)
      then show ?thesis using ds [OF Some] by simp
    qed
    have s: "set (pairs ?U) = insert (?n, ?i) (set (pairs (subscriptions st)))"
      using d by (auto simp: set_pairs_update set_pairs_map_of split: option.splits)
    have eq: "push_model env st m = Inr (?st'\<lparr>subscriptions := ?U\<rparr>)"
      using push_model_untracked [OF sub own ni] by (simp add: Let_def)
    have 1: "distinct (map fst ?U)" using d by (simp add: AList.distinct_update)
    have 2: "\<forall>n ids. map_of ?U n = Some ids \<longrightarrow> distinct ids"
    proof (intro allI impI)
      fix n ids
      assume a: "map_of ?U n = Some ids"
      show "distinct ids"
      proof (cases "n = ?n")
        case True
        then have "ids = ?ids @ [?i]" using a by (simp add: AList.update_conv')
        then show ?thesis using di ni by simp
      next
        case False
        then have "map_of (subscriptions st) n = Some ids"
          using a by (simp add: AList.update_conv')
        then show ?thesis using dall by blast
      qed
    qed
    have 5: "\<forall>n. n \<in> set Object_prototype \<longrightarrow> map_of ?U n = None"
      using proto own by (auto simp: AList.update_conv')
    show thesis
    proof (cases "connected (socket st)")
      case True
      let ?X = "(subscribeTask_perform env ?n ?i st)\<lparr>subscriptions := ?U\<rparr>"
      have X: "push_model env st m = Inr ?X" using eq True by simp
      have a: "subscriptions ?X = ?U" by simp
      have b: "performed ?X = performed st @ [(?n, ?i)]"
        by (simp add: performed_subscribeTask_perform)
      have c: "connected (socket ?X) = True"
        using True by (simp add: subscribeTask_perform_fields)
      have 3: "set (performed st @ [(?n, ?i)]) \<subseteq> set (pairs ?U)"
        using sub1 unfolding s by auto
      have 4: "set (pairs ?U) \<subseteq> set (performed st @ [(?n, ?i)])"
        using sub2 [OF True] unfolding s by auto
      have r: "registry_ok ?X"
        unfolding registry_ok_def a b by (intro conjI impI 1 2 3 4 5)
      show thesis
      proof (rule that [of ?X])
        show "push_model env st m = Inr ?X" by (rule X)
        show "registry_ok ?X" by (rule r)
        show "set (pairs (subscriptions ?X)) = insert (?n, ?i) (set (pairs (subscriptions st)))"
          unfolding a by (rule s)
        show "performed ?X = performed st @
           (if connected (socket st) \<and> (?n, ?i) \<notin> set (pairs (subscriptions st))
            then [(?n, ?i)] else [])"
          unfolding b using True nt by simp
        show "connected (socket ?X) = connected (socket st)" using c True by simp
        show "socket ?X = socket st \<and> subscribeTask ?X = subscribeTask st"
          if "\<not> connected (socket st)" using that True by simp
        show "?X = st" if "(?n, ?i) \<in> set (pairs (subscriptions st))"
          using that nt by simp
      qed
    next
      case nc: False
      let ?X = "st\<lparr>subscriptions := ?U\<rparr>"
      have X: "push_model env st m = Inr ?X" using eq nc by simp
      have a: "subscriptions ?X = ?U" by simp
      have b: "performed ?X = performed st" by simp
      have c: "connected (socket ?X) = False" using nc by simp
      have 3: "set (performed st) \<subseteq> set (pairs ?U)"
        using sub1 unfolding s by auto
      have r: "registry_ok ?X"
        unfolding registry_ok_def a b c by (intro conjI 1 2 3 5) simp
      show thesis
      proof (rule that [of ?X])
        show "push_model env st m = Inr ?X" by (rule X)
        show "registry_ok ?X" by (rule r)
        show "set (pairs (subscriptions ?X)) = insert (?n, ?i) (set (pairs (subscriptions st)))"
          unfolding a by (rule s)
        show "performed ?X = performed st @
           (if connected (socket st) \<and> (?n, ?i) \<notin> set (pairs (subscriptions st))
            then [(?n, ?i)] else [])"
          unfolding b using nc by simp
        show "connected (socket ?X) = connected (socket st)" using c nc by simp
        show "socket ?X = socket st \<and> subscribeTask ?X = subscribeTask st"
          if "\<not> connected (socket st)" by simp
        show "?X = st" if "(?n, ?i) \<in> set (pairs (subscriptions st))"
          using that nt by simp
      qed
    qed
  qed
qed

text \<open>
  The pairs a list of models asks to be registered, in order: those of the models
  \<open>shouldSubscribe\<close> accepts. \<open>before_inherited\<close> are the pairs the loop reaches: it ends at
  the first whose model name is inherited. \<open>fresh S qs\<close> are the pairs of \<open>qs\<close> that are
  not in \<open>S\<close>, each once, in the order of their first occurrence.
\<close>

definition interest_in :: "env \<Rightarrow> model list \<Rightarrow> (string \<times> string) list" where
  "interest_in env ms =
     map (\<lambda>m. (modelName (internalModel_of m), model_id m)) (filter (shouldSubscribe env) ms)"

definition before_inherited :: "(string \<times> string) list \<Rightarrow> (string \<times> string) list" where
  "before_inherited qs = takeWhile (\<lambda>(n, i). n \<notin> set Object_prototype) qs"

fun fresh :: "'a set \<Rightarrow> 'a list \<Rightarrow> 'a list" where
  "fresh S [] = []"
| "fresh S (q # qs) = (if q \<in> S then fresh S qs else q # fresh (insert q S) qs)"



lemma fresh_known: "set qs \<subseteq> S \<Longrightarrow> fresh S qs = []"
  by (induction qs arbitrary: S) auto

lemma push_models_registers:
  assumes "registry_ok st"
  shows "\<exists>s. push_models env st ms
             = (if before_inherited (interest_in env ms) = interest_in env ms then None
                else Some TypeError, s)
           \<and> registry_ok s
           \<and> set (pairs (subscriptions s))
               = set (pairs (subscriptions st)) \<union> set (before_inherited (interest_in env ms))
           \<and> performed s = performed st @
               (if connected (socket st)
                then fresh (set (pairs (subscriptions st))) (before_inherited (interest_in env ms))
                else [])
           \<and> connected (socket s) = connected (socket st)
           \<and> (\<not> connected (socket st) \<longrightarrow> socket s = socket st \<and> subscribeTask s = subscribeTask st)
           \<and> (set (before_inherited (interest_in env ms)) \<subseteq> set (pairs (subscriptions st))
                \<longrightarrow> s = st)"
  using assms
proof (induction ms arbitrary: st)
  case Nil
  then show ?case by (simp add: interest_in_def before_inherited_def)
next
  case (Cons m ms)
  let ?n = "modelName (internalModel_of m)"
  let ?i = "model_id m"
  let ?P = "set (pairs (subscriptions st))"
  let ?qs = "interest_in env ms"
  let ?regs = "before_inherited ?qs"
  show ?case
  proof (cases "shouldSubscribe env m")
    case False
    have 1: "push_models env st (m # ms) = push_models env st ms"
      using False by (simp add: push_model_ignored)
    have 2: "interest_in env (m # ms) = ?qs"
      using False by (simp add: interest_in_def)
    show ?thesis unfolding 1 2 using Cons.prems by (rule Cons.IH)
  next
    case True
    have q: "interest_in env (m # ms) = (?n, ?i) # ?qs"
      using True by (simp add: interest_in_def)
    show ?thesis
    proof (cases "?n \<in> set Object_prototype")
      case inh: True
      have "map_of (subscriptions st) ?n = None"
        using Cons.prems inh by (simp add: registry_ok_def)
      then have "push_model env st m = Inl TypeError"
        using True inh by (simp add: push_model_inherited)
      then have 1: "push_models env st (m # ms) = (Some TypeError, st)" by simp
      have 2: "before_inherited ((?n, ?i) # ?qs) = []"
        using inh by (simp add: before_inherited_def)
      show ?thesis
        unfolding 1 q 2 using Cons.prems by simp
    next
      case own: False
      obtain s1 where s1: "push_model env st m = Inr s1" and ok1: "registry_ok s1"
        and p1: "set (pairs (subscriptions s1)) = insert (?n, ?i) ?P"
        and f1: "performed s1 = performed st @
                   (if connected (socket st) \<and> (?n, ?i) \<notin> ?P then [(?n, ?i)] else [])"
        and c1: "connected (socket s1) = connected (socket st)"
        and n1: "\<not> connected (socket st) \<Longrightarrow> socket s1 = socket st \<and> subscribeTask s1 = subscribeTask st"
        and t1: "(?n, ?i) \<in> ?P \<Longrightarrow> s1 = st"
        using push_model_registers [OF Cons.prems True own] by metis
      obtain s where s: "push_models env s1 ms
             = (if ?regs = ?qs then None else Some TypeError, s)"
        and ok: "registry_ok s"
        and p: "set (pairs (subscriptions s)) = set (pairs (subscriptions s1)) \<union> set ?regs"
        and f: "performed s = performed s1 @
               (if connected (socket s1) then fresh (set (pairs (subscriptions s1))) ?regs else [])"
        and c: "connected (socket s) = connected (socket s1)"
        and n: "\<not> connected (socket s1) \<longrightarrow> socket s = socket s1 \<and> subscribeTask s = subscribeTask s1"
        and t: "set ?regs \<subseteq> set (pairs (subscriptions s1)) \<longrightarrow> s = s1"
        using Cons.IH [OF ok1] by blast
      have 2: "before_inherited ((?n, ?i) # ?qs) = (?n, ?i) # ?regs"
        using own by (simp add: before_inherited_def)
      have 1: "push_models env st (m # ms)
                 = (if (?n, ?i) # ?regs = (?n, ?i) # ?qs then None else Some TypeError, s)"
        using s1 s by simp
      have 3: "set (pairs (subscriptions s)) = ?P \<union> set ((?n, ?i) # ?regs)"
        unfolding p p1 by auto
      have ins: "(?n, ?i) \<in> ?P \<Longrightarrow> insert (?n, ?i) ?P = ?P" by auto
      have 4: "performed s = performed st @
                 (if connected (socket st) then fresh ?P ((?n, ?i) # ?regs) else [])"
        unfolding f f1 c1 p1 using ins by simp
      have 5: "connected (socket s) = connected (socket st)" using c c1 by simp
      have 6: "\<not> connected (socket st) \<longrightarrow> socket s = socket st \<and> subscribeTask s = subscribeTask st"
        using n n1 c1 by simp
      have 7: "set ((?n, ?i) # ?regs) \<subseteq> ?P \<longrightarrow> s = st"
      proof
        assume a: "set ((?n, ?i) # ?regs) \<subseteq> ?P"
        then have "s1 = st" using t1 by simp
        moreover have "set ?regs \<subseteq> set (pairs (subscriptions s1))" using a p1 by auto
        ultimately show "s = st" using t by simp
      qed
      show ?thesis
        unfolding q 2 using 1 ok 3 4 5 6 7 by blast
    qed
  qed
qed

lemma set_task_fields:
  "subscriptions (set_task k t st) = subscriptions st"
  "subscribeTask (set_task k t st) = subscribeTask st"
  "jsonapiModelNames (set_task k t st) = jsonapiModelNames st"
  "host (set_task k t st) = host st"
  "invoked (set_task k t st) = invoked st"
  "uncaught (set_task k t st) = uncaught st"
  "internalModels (set_task k t st) = internalModels st"
  "connected (socket (set_task k t st)) = connected (socket st)"
  "handshakes (socket (set_task k t st)) = handshakes (socket st)"
  "socket_onMessage (socket (set_task k t st)) = socket_onMessage (socket st)"
  "glue_socket (socket (set_task k t st)) = glue_socket (socket st)"
  "state (socket (set_task k t st)) = state (socket st)"
  "logged (socket (set_task k t st)) = logged (socket st)"
  "subscribeCementChannel (socket (set_task k t st)) = subscribeCementChannel (socket st)"
  "socketOnConnectedTask (socket (set_task k t st)) = (socketOnConnectedTask (socket st))[k := t]"
  by (simp_all add: set_task_def)

lemma performed_set_task [simp]: "performed (set_task k t st) = performed st"
  by (simp add: performed_def set_task_fields)

lemma registry_ok_cong:
  "subscriptions a = subscriptions b \<Longrightarrow> subscribeTask a = subscribeTask b \<Longrightarrow>
   connected (socket a) = connected (socket b) \<Longrightarrow> registry_ok a = registry_ok b"
  by (simp add: registry_ok_def performed_def)

text \<open>What the task does when it goes on after a resolved promise.\<close>

lemma resume_resolved:
  obtains s where "socketOnConnectedTask_resume env HResolved st k = onConnected env s"
    and "subscriptions s = subscriptions st" and "subscribeTask s = subscribeTask st"
    and "connected (socket s)" and "invoked s = invoked st @ [OnConnected]"
    and "subscribeCementChannel (socket s) = subscribeCementChannel (socket st)"
    and "handshakes (socket s) = handshakes (socket st)"
    and "socketOnConnectedTask (socket s) = (socketOnConnectedTask (socket st))[k := Completed]"
    and "socket_onMessage (socket s) = socket_onMessage (socket st)"
    and "glue_socket (socket s) = glue_socket (socket st)"
    and "jsonapiModelNames s = jsonapiModelNames st"
    and "host s = host st" and "uncaught s = uncaught st"
    and "internalModels s = internalModels st"
    and "state (socket s) = state (socket st)" and "logged (socket s) = logged (socket st)"
proof -
  let ?s = "(set_task k Completed st)\<lparr>socket := (socket (set_task k Completed st))\<lparr>connected := True\<rparr>,
      invoked := invoked (set_task k Completed st) @ [OnConnected]\<rparr>"
  show thesis
    by (rule that [of ?s]) (simp_all add: socketOnConnectedTask_resume_def Let_def set_task_fields)
qed

lemma registry_ok_resume:
  assumes "registry_ok st"
  shows "registry_ok (socketOnConnectedTask_resume env h st k)"
proof (cases h)
  case HPending
  then show ?thesis using assms by (simp add: socketOnConnectedTask_resume_def)
next
  case (HRejected e)
  have "registry_ok (set_task k (Failed e) st) = registry_ok st"
    by (rule registry_ok_cong) (simp_all add: set_task_fields)
  then show ?thesis using assms HRejected by (simp add: socketOnConnectedTask_resume_def)
next
  case HResolved
  obtain s where r: "socketOnConnectedTask_resume env HResolved st k = onConnected env s"
    and 1: "subscriptions s = subscriptions st" and 2: "subscribeTask s = subscribeTask st"
    by (rule resume_resolved)
  have s: "subscriptions (onConnected env s) = subscriptions st"
    by (simp add: onConnected_fields 1)
  have "performed s = performed st"
    by (simp add: performed_def 2)
  then have p: "performed (onConnected env s) = performed st @ pairs (subscriptions st)"
    by (simp add: onConnected_performed 1)
  have a: "distinct (map fst (subscriptions st))"
    and b: "\<forall>n ids. map_of (subscriptions st) n = Some ids \<longrightarrow> distinct ids"
    and c: "\<forall>n. n \<in> set Object_prototype \<longrightarrow> map_of (subscriptions st) n = None"
    and d: "set (performed st) \<subseteq> set (pairs (subscriptions st))"
    using assms by (simp_all add: registry_ok_def)
  have e: "set (performed st @ pairs (subscriptions st)) \<subseteq> set (pairs (subscriptions st))"
    using d by simp
  have f: "set (pairs (subscriptions st)) \<subseteq> set (performed st @ pairs (subscriptions st))"
    by simp
  show ?thesis
    unfolding HResolved r registry_ok_def s p by (intro conjI impI a b c e f)
qed

lemma foldl_preserves:
  "(\<And>s k. P s \<Longrightarrow> P (f s k)) \<Longrightarrow> P s \<Longrightarrow> P (foldl f s ks)"
  by (induction ks arbitrary: s) simp_all

lemma registry_ok_task_resumed: "registry_ok st \<Longrightarrow> registry_ok (task_resumed env k st)"
  by (simp add: task_resumed_def registry_ok_resume split: option.split)

lemma registry_ok_socket_message: "registry_ok st \<Longrightarrow> registry_ok (socket_message m st)"
proof -
  have "registry_ok (socket_message m st) = registry_ok st"
    by (rule registry_ok_cong) (simp_all add: socket_message_def split: option.split)
  then show "registry_ok st \<Longrightarrow> registry_ok (socket_message m st)" by simp
qed

lemma connectionMessage_settled_fields:
  "subscriptions (connectionMessage_settled env k r st) = subscriptions st"
  "subscribeTask (connectionMessage_settled env k r st) = subscribeTask st"
  "connected (socket (connectionMessage_settled env k r st)) = connected (socket st)"
  "jsonapiModelNames (connectionMessage_settled env k r st) = jsonapiModelNames st"
  "host (connectionMessage_settled env k r st) = host st"
  "invoked (connectionMessage_settled env k r st) = invoked st"
  "uncaught (connectionMessage_settled env k r st) = uncaught st"
  "internalModels (connectionMessage_settled env k r st) = internalModels st"
  "subscribeCementChannel (socket (connectionMessage_settled env k r st))
     = subscribeCementChannel (socket st)"
  by (simp_all add: connectionMessage_settled_def sendConnectionMessage_def Let_def set_task_fields
      split: sum.split option.split)

lemma registry_ok_connectionMessage_settled:
  "registry_ok st \<Longrightarrow> registry_ok (connectionMessage_settled env k r st)"
proof -
  have "registry_ok (connectionMessage_settled env k r st) = registry_ok st"
    by (rule registry_ok_cong) (simp_all add: connectionMessage_settled_fields)
  then show "registry_ok st \<Longrightarrow> registry_ok (connectionMessage_settled env k r st)" by simp
qed

text \<open>
  The models of a pushed value, and \<open>_push\<close> and its event in terms of the loop over them.
\<close>

definition pushed_models :: "store \<Rightarrow> pushed \<Rightarrow> model list" where
  "pushed_models st p =
     (case p of PNull \<Rightarrow> [] | POne r \<Rightarrow> [getRecord st r] | PMany rs \<Rightarrow> map (getRecord st) rs)"

lemma mixin_push_models:
  "mixin_push env p st =
     (case fst (push_models env st (pushed_models st p)) of None \<Rightarrow> Inr p | Some e \<Rightarrow> Inl e,
      snd (push_models env st (pushed_models st p)))"
  by (cases p) (auto simp: mixin_push_def pushed_models_def split: prod.split option.split)

lemma step_Push:
  "step env st (Push ims p) =
     (case fst (push_models env (st\<lparr>internalModels := ims\<rparr>) (pushed_models (st\<lparr>internalModels := ims\<rparr>) p)) of
        None \<Rightarrow> snd (push_models env (st\<lparr>internalModels := ims\<rparr>) (pushed_models (st\<lparr>internalModels := ims\<rparr>) p))
      | Some e \<Rightarrow> throw e (snd (push_models env (st\<lparr>internalModels := ims\<rparr>) (pushed_models (st\<lparr>internalModels := ims\<rparr>) p))))"
  by (simp add: step_def mixin_push_models split: option.split)

lemma push_models_preserves:
  assumes "\<And>s m s'. P s \<Longrightarrow> push_model env s m = Inr s' \<Longrightarrow> P s'" and "P st"
  shows "P (snd (push_models env st ms))"
  using assms(2)
proof (induction ms arbitrary: st)
  case Nil
  then show ?case by simp
next
  case (Cons m ms)
  show ?case
  proof (cases "push_model env st m")
    case (Inl e)
    then show ?thesis using Cons.prems by simp
  next
    case (Inr s')
    have "P s'" using Cons.prems Inr by (rule assms(1))
    then have "P (snd (push_models env s' ms))" by (rule Cons.IH)
    then show ?thesis using Inr by simp
  qed
qed

lemma step_Push_preserves:
  assumes "\<And>s m s'. P s \<Longrightarrow> push_model env s m = Inr s' \<Longrightarrow> P s'"
    and "\<And>s e. P s \<Longrightarrow> P (throw e s)"
    and "P (st\<lparr>internalModels := ims\<rparr>)"
  shows "P (step env st (Push ims p))"
proof -
  have "P (snd (push_models env (st\<lparr>internalModels := ims\<rparr>) (pushed_models (st\<lparr>internalModels := ims\<rparr>) p)))"
    using assms(1,3) by (rule push_models_preserves)
  then show ?thesis
    unfolding step_Push using assms(2) by (simp split: option.split)
qed

lemma registry_ok_push_model:
  assumes "registry_ok st" and "push_model env st m = Inr s"
  shows "registry_ok s"
proof (cases "shouldSubscribe env m")
  case False
  then show ?thesis using assms by (simp add: push_model_ignored)
next
  case True
  show ?thesis
  proof (cases "modelName (internalModel_of m) \<in> set Object_prototype")
    case inh: True
    have "map_of (subscriptions st) (modelName (internalModel_of m)) = None"
      using assms(1) inh by (simp add: registry_ok_def)
    then have "push_model env st m = Inl TypeError"
      using True inh by (simp add: push_model_inherited)
    then show ?thesis using assms(2) by simp
  next
    case False
    obtain s1 where "push_model env st m = Inr s1" and "registry_ok s1"
      using push_model_registers [OF assms(1) True False] by metis
    then show ?thesis using assms(2) by simp
  qed
qed

lemma registry_ok_step: "registry_ok st \<Longrightarrow> registry_ok (step env st ev)"
proof (cases ev)
  case (SocketMessage m)
  then show "registry_ok st \<Longrightarrow> ?thesis" by (simp add: step_def registry_ok_socket_message)
next
  case (TaskResumed k)
  then show "registry_ok st \<Longrightarrow> ?thesis" by (simp add: step_def registry_ok_task_resumed)
next
  case (ConnectionMessageSettled k r)
  then show "registry_ok st \<Longrightarrow> ?thesis" by (simp add: step_def registry_ok_connectionMessage_settled)
next
  case (Push ims p)
  assume ok: "registry_ok st"
  have 1: "registry_ok (throw e s)" if "registry_ok s" for e s
    using that by (simp add: registry_ok_def throw_def performed_def)
  have 2: "registry_ok (st\<lparr>internalModels := ims\<rparr>)"
    using ok by (simp add: registry_ok_def performed_def)
  show ?thesis
    unfolding Push using registry_ok_push_model 1 2 by (rule step_Push_preserves)
next
  case SocketDisconnected
  then show "registry_ok st \<Longrightarrow> ?thesis"
    by (simp add: step_def socketOnDisconnected_def onDisconnected_def registry_ok_def performed_def)
next
  case (SocketError a)
  then show "registry_ok st \<Longrightarrow> ?thesis"
    by (simp add: step_def socketOnError_def registry_ok_def performed_def)
next
  case SocketConnected
  then show "registry_ok st \<Longrightarrow> ?thesis"
    by (simp add: step_def socketOnConnected_def registry_ok_def performed_def)
next
  case (SubscribeMessage m)
  then show "registry_ok st \<Longrightarrow> ?thesis"
    by (auto simp: step_def throw_def registry_ok_def performed_def split: sum.splits)
next
  case (UpdatedMessage m)
  then show "registry_ok st \<Longrightarrow> ?thesis"
    by (auto simp: step_def throw_def registry_ok_def performed_def socket_onModelUpdated_def
        onModelUpdated_def Let_def split: sum.splits)
next
  case (DeletedMessage m)
  then show "registry_ok st \<Longrightarrow> ?thesis"
    by (auto simp: step_def throw_def registry_ok_def performed_def socket_onModelDeleted_def
        onModelDeleted_def Let_def split: sum.splits)
next
  case (StatePolled s)
  then show "registry_ok st \<Longrightarrow> ?thesis"
    by (simp add: step_def updateSocketState_def registry_ok_def performed_def)
qed


lemma run_Cons: "run env (e # es) st = run env es (step env st e)"
  by (simp add: run_def)

lemma run_Nil: "run env [] st = st"
  by (simp add: run_def)

lemma run_snoc: "run env (es @ [e]) st = step env (run env es st) e"
  by (simp add: run_def)

lemma registry_ok_run: "registry_ok st \<Longrightarrow> registry_ok (run env es st)"
  unfolding run_def by (rule foldl_preserves) (rule registry_ok_step)

text \<open>
  \<open>request_frame env (name, i, p)\<close> is the frame \<open>subscribeTask\<close> hands to the subscribe
  channel for the pair: the wire name of the model and the id, under the correlation id
  of the promise \<open>p\<close>. In every store that arises the frames handed to the channel are
  those of the tasks performed, one each and in order.
\<close>

definition request_frame :: "env \<Rightarrow> string \<times> string \<times> nat \<Rightarrow> string" where
  "request_frame env r =
     (case r of (name, i, p) \<Rightarrow>
        JSON_stringify env
          (JObj [(''id'', JStr (uuid_v4 env p)),
                 (''data'', JStr (JSON_stringify env
                    (JObj [(''model'', JStr (pathForType env name)), (''id'', JStr i)])))]))"

definition requests_ok :: "env \<Rightarrow> store \<Rightarrow> bool" where
  "requests_ok env st =
     (channel (subscribeCementChannel (socket st)) = map (request_frame env) (subscribeTask st)
      \<and> map (\<lambda>(name, i, p). p) (subscribeTask st)
          = [0..<length (promises (subscribeCementChannel (socket st)))])"

lemma requests_ok_cong:
  "subscribeTask a = subscribeTask b \<Longrightarrow>
   subscribeCementChannel (socket a) = subscribeCementChannel (socket b) \<Longrightarrow>
   requests_ok env a = requests_ok env b"
  by (simp add: requests_ok_def)

lemma requests_ok_init: "requests_ok env store_init"
  by (simp add: requests_ok_def store_init_def RealtimeSocket_init_def CementChannel_init_def)

lemma requests_ok_subscribeTask_perform:
  "requests_ok env st \<Longrightarrow> requests_ok env (subscribeTask_perform env n i st)"
  by (simp add: requests_ok_def subscribeTask_perform_def subscribe_def send_def Let_def
      request_frame_def split: option.split)

lemma requests_ok_replay_ids:
  "requests_ok env st \<Longrightarrow> requests_ok env (replay_ids env n st ids)"
  unfolding replay_ids_def by (rule foldl_preserves) (rule requests_ok_subscribeTask_perform)

lemma requests_ok_onConnected:
  assumes "requests_ok env st"
  shows "requests_ok env (onConnected env st)"
proof -
  have "requests_ok env (replay env st subs)" for subs
    unfolding replay_def using assms
    by (rule foldl_preserves [rotated]) (auto simp: requests_ok_replay_ids)
  then show ?thesis by (simp add: onConnected_replay)
qed

lemma requests_ok_push_model:
  assumes "requests_ok env st" and "push_model env st m = Inr s"
  shows "requests_ok env s"
proof -
  have u: "requests_ok env (s\<lparr>subscriptions := x\<rparr>) = requests_ok env s" for s x
    by (simp add: requests_ok_def)
  show ?thesis
    using assms
    by (auto simp: push_model_def Let_def u requests_ok_subscribeTask_perform
        split: if_splits property.splits)
qed

lemma requests_ok_resume:
  assumes "requests_ok env st"
  shows "requests_ok env (socketOnConnectedTask_resume env h st k)"
proof (cases h)
  case HPending
  then show ?thesis using assms by (simp add: socketOnConnectedTask_resume_def)
next
  case (HRejected e)
  have "requests_ok env (set_task k (Failed e) st) = requests_ok env st"
    by (rule requests_ok_cong) (simp_all add: set_task_fields)
  then show ?thesis using assms HRejected by (simp add: socketOnConnectedTask_resume_def)
next
  case HResolved
  obtain s where r: "socketOnConnectedTask_resume env HResolved st k = onConnected env s"
    and 1: "subscribeTask s = subscribeTask st"
    and 2: "subscribeCementChannel (socket s) = subscribeCementChannel (socket st)"
    by (rule resume_resolved)
  have "requests_ok env s = requests_ok env st"
    using 1 2 by (rule requests_ok_cong)
  then have "requests_ok env (onConnected env s)"
    using assms by (simp add: requests_ok_onConnected)
  then show ?thesis
    using HResolved r by simp
qed

lemma requests_ok_task_resumed:
  "requests_ok env st \<Longrightarrow> requests_ok env (task_resumed env k st)"
  by (simp add: task_resumed_def requests_ok_resume split: option.split)

lemma requests_ok_socket_message:
  "requests_ok env st \<Longrightarrow> requests_ok env (socket_message m st)"
proof -
  have "requests_ok env (socket_message m st) = requests_ok env st"
    by (rule requests_ok_cong) (simp_all add: socket_message_def split: option.split)
  then show "requests_ok env st \<Longrightarrow> requests_ok env (socket_message m st)" by simp
qed

lemma requests_ok_connectionMessage_settled:
  "requests_ok env st \<Longrightarrow> requests_ok env (connectionMessage_settled env k r st)"
proof -
  have "requests_ok env (connectionMessage_settled env k r st) = requests_ok env st"
    by (rule requests_ok_cong) (simp_all add: connectionMessage_settled_fields)
  then show "requests_ok env st \<Longrightarrow> requests_ok env (connectionMessage_settled env k r st)"
    by simp
qed

lemma onMessage_keeps:
  "onMessage env m c = Inr c' \<Longrightarrow>
   channel c' = channel c \<and> length (promises c') = length (promises c)"
  by (auto simp: onMessage_def split: sum.splits option.splits)

lemma requests_ok_step: "requests_ok env st \<Longrightarrow> requests_ok env (step env st ev)"
proof (cases ev)
  case (SocketMessage m)
  then show "requests_ok env st \<Longrightarrow> ?thesis" by (simp add: step_def requests_ok_socket_message)
next
  case (TaskResumed k)
  then show "requests_ok env st \<Longrightarrow> ?thesis" by (simp add: step_def requests_ok_task_resumed)
next
  case (ConnectionMessageSettled k r)
  then show "requests_ok env st \<Longrightarrow> ?thesis"
    by (simp add: step_def requests_ok_connectionMessage_settled)
next
  case (Push ims p)
  assume ok: "requests_ok env st"
  have 1: "requests_ok env (throw e s)" if "requests_ok env s" for e s
    using that by (simp add: requests_ok_def throw_def)
  have 2: "requests_ok env (st\<lparr>internalModels := ims\<rparr>)"
    using ok by (simp add: requests_ok_def)
  show ?thesis
    unfolding Push using requests_ok_push_model 1 2 by (rule step_Push_preserves)
next
  case SocketDisconnected
  then show "requests_ok env st \<Longrightarrow> ?thesis"
    by (simp add: step_def socketOnDisconnected_def onDisconnected_def requests_ok_def)
next
  case (SocketError a)
  then show "requests_ok env st \<Longrightarrow> ?thesis"
    by (simp add: step_def socketOnError_def requests_ok_def)
next
  case SocketConnected
  then show "requests_ok env st \<Longrightarrow> ?thesis"
    by (simp add: step_def socketOnConnected_def requests_ok_def)
next
  case (SubscribeMessage m)
  then show "requests_ok env st \<Longrightarrow> ?thesis"
    by (auto simp: step_def throw_def requests_ok_def split: sum.splits dest: onMessage_keeps)
next
  case (UpdatedMessage m)
  then show "requests_ok env st \<Longrightarrow> ?thesis"
    by (auto simp: step_def throw_def requests_ok_def socket_onModelUpdated_def
        onModelUpdated_def Let_def split: sum.splits)
next
  case (DeletedMessage m)
  then show "requests_ok env st \<Longrightarrow> ?thesis"
    by (auto simp: step_def throw_def requests_ok_def socket_onModelDeleted_def
        onModelDeleted_def Let_def split: sum.splits)
next
  case (StatePolled s)
  then show "requests_ok env st \<Longrightarrow> ?thesis"
    by (simp add: step_def updateSocketState_def requests_ok_def)
qed

lemma requests_ok_run: "requests_ok env st \<Longrightarrow> requests_ok env (run env es st)"
  unfolding run_def by (rule foldl_preserves) (rule requests_ok_step)

text \<open>
  What an event is to register and what it is to have \<open>subscribeTask\<close> performed for,
  stated apart from the code, which the theorem below is compared with.
  \<open>registrations env st p\<close> are the pairs a call of \<open>_push\<close> returning \<open>p\<close> registers:
  those of the pushed models \<open>shouldSubscribe\<close> accepts, up to the first whose model name
  is inherited from \<open>Object.prototype\<close>, where \<open>_push\<close> throws. Only a push registers
  pairs. A push performs a request for each registered pair that is not yet recorded,
  once, and only while connected; a task that goes on after its handshake was accepted
  performs one for every recorded pair; nothing else performs any.
\<close>

definition registrations :: "env \<Rightarrow> store \<Rightarrow> pushed \<Rightarrow> (string \<times> string) list" where
  "registrations env st p = before_inherited (interest_in env (pushed_models st p))"


definition issued :: "env \<Rightarrow> store \<Rightarrow> event \<Rightarrow> (string \<times> string) list" where
  "issued env st ev =
     (case ev of
        Push ims p \<Rightarrow>
          (if connected (socket st)
           then fresh (set (pairs (subscriptions st)))
                  (registrations env (st\<lparr>internalModels := ims\<rparr>) p)
           else [])
      | TaskResumed k \<Rightarrow>
          (if awaited st k = Some HResolved then pairs (subscriptions st) else [])
      | _ \<Rightarrow> [])"

lemma push_model_quiet:
  assumes "push_model env st m = Inr s"
  shows "host s = host st" and "invoked s = invoked st" and "uncaught s = uncaught st"
    and "internalModels s = internalModels st"
    and "connected (socket s) = connected (socket st)"
    and "state (socket s) = state (socket st)"
    and "glue_socket (socket s) = glue_socket (socket st)"
    and "socket_onMessage (socket s) = socket_onMessage (socket st)"
    and "handshakes (socket s) = handshakes (socket st)"
    and "socketOnConnectedTask (socket s) = socketOnConnectedTask (socket st)"
    and "logged (socket s) = logged (socket st)"
  using assms
  by (auto simp: push_model_def Let_def subscribeTask_perform_fields
      split: if_splits property.splits)


lemma task_resumed_cases:
  obtains (waits) "awaited st k \<noteq> Some HResolved" and "subscriptions (task_resumed env k st) = subscriptions st"
      and "subscribeTask (task_resumed env k st) = subscribeTask st"
      and "connected (socket (task_resumed env k st)) = connected (socket st)"
      and "invoked (task_resumed env k st) = invoked st"
      and "subscribeCementChannel (socket (task_resumed env k st)) = subscribeCementChannel (socket st)"
      and "glue_socket (socket (task_resumed env k st)) = glue_socket (socket st)"
  | (accepted) s where "awaited st k = Some HResolved"
      and "task_resumed env k st = onConnected env s"
      and "subscriptions s = subscriptions st" and "subscribeTask s = subscribeTask st"
      and "connected (socket s)" and "invoked s = invoked st @ [OnConnected]"
      and "subscribeCementChannel (socket s) = subscribeCementChannel (socket st)"
      and "glue_socket (socket s) = glue_socket (socket st)"
proof (cases "awaited st k")
  case None
  then show thesis by (intro waits) (simp_all add: task_resumed_def)
next
  case (Some h)
  show thesis
  proof (cases h)
    case HPending
    then show thesis using Some by (intro waits) (simp_all add: task_resumed_def socketOnConnectedTask_resume_def)
  next
    case (HRejected e)
    then show thesis
      using Some
      by (intro waits) (simp_all add: task_resumed_def socketOnConnectedTask_resume_def set_task_fields)
  next
    case HResolved
    obtain s where "socketOnConnectedTask_resume env HResolved st k = onConnected env s"
      and "subscriptions s = subscriptions st" and "subscribeTask s = subscribeTask st"
      and "connected (socket s)" and "invoked s = invoked st @ [OnConnected]"
      and "subscribeCementChannel (socket s) = subscribeCementChannel (socket st)"
      and "glue_socket (socket s) = glue_socket (socket st)"
      by (rule resume_resolved)
    then show thesis
      using Some HResolved by (intro accepted [of s]) (simp_all add: task_resumed_def)
  qed
qed

lemma step_TaskResumed_issued:
  "subscriptions (step env st (TaskResumed k)) = subscriptions st"
  "performed (step env st (TaskResumed k)) = performed st @ issued env st (TaskResumed k)"
  "issued env st (TaskResumed k) \<noteq> [] \<longrightarrow> connected (socket (step env st (TaskResumed k)))"
proof -
  have "subscriptions (step env st (TaskResumed k)) = subscriptions st
    \<and> performed (step env st (TaskResumed k)) = performed st @ issued env st (TaskResumed k)
    \<and> (issued env st (TaskResumed k) \<noteq> [] \<longrightarrow> connected (socket (step env st (TaskResumed k))))"
  proof (cases rule: task_resumed_cases [of st k env])
    case waits
    then show ?thesis by (simp add: step_def issued_def performed_def)
  next
    case (accepted s)
    have "performed s = performed st" using accepted(4) by (simp add: performed_def)
    then have "performed (onConnected env s) = performed st @ pairs (subscriptions st)"
      using accepted(3) by (simp add: onConnected_performed)
    then show ?thesis
      using accepted by (simp add: step_def issued_def onConnected_fields)
  qed
  then show "subscriptions (step env st (TaskResumed k)) = subscriptions st"
    "performed (step env st (TaskResumed k)) = performed st @ issued env st (TaskResumed k)"
    "issued env st (TaskResumed k) \<noteq> [] \<longrightarrow> connected (socket (step env st (TaskResumed k)))"
    by simp_all
qed








section \<open>Handshakes and their tasks\<close>

text \<open>
  In every store that arises, a pending promise of \<open>sendConnectionMessage\<close> has a task
  waiting for it: the task that called \<open>sendConnectionMessage\<close>, which waits until the
  promise has settled and the task goes on.
\<close>

definition handshakes_ok :: "store \<Rightarrow> bool" where
  "handshakes_ok st =
     (\<forall>h<length (handshakes (socket st)). handshakes (socket st) ! h = HPending \<longrightarrow>
        (\<exists>k<length (socketOnConnectedTask (socket st)).
           socketOnConnectedTask (socket st) ! k = AwaitingHandshake h))"

lemma handshakes_ok_cong:
  "handshakes (socket a) = handshakes (socket b) \<Longrightarrow>
   socketOnConnectedTask (socket a) = socketOnConnectedTask (socket b) \<Longrightarrow>
   handshakes_ok a = handshakes_ok b"
  by (simp add: handshakes_ok_def)

lemma handshakes_ok_init: "handshakes_ok store_init"
  by (simp add: handshakes_ok_def store_init_def RealtimeSocket_init_def)

lemma onConnected_tasks:
  "handshakes_ok (onConnected env st) = handshakes_ok st"
  by (rule handshakes_ok_cong) (simp_all add: onConnected_fields)

lemma connection_handler_settled: "h \<noteq> HPending \<Longrightarrow> connection_handler m h = h"
  by (simp add: connection_handler_def resolve_handshake_def reject_handshake_def)

text \<open>A task other than those waiting for a pending promise may change its state.\<close>

lemma handshakes_ok_set_task:
  assumes ok: "handshakes_ok st"
    and k: "\<forall>h. socketOnConnectedTask (socket st) ! k = AwaitingHandshake h \<longrightarrow>
              h < length (handshakes (socket st)) \<and> handshakes (socket st) ! h \<noteq> HPending"
  shows "handshakes_ok (set_task k t st)"
  unfolding handshakes_ok_def set_task_fields
proof (intro allI impI)
  fix h
  assume h: "h < length (handshakes (socket st))" "handshakes (socket st) ! h = HPending"
  then obtain k' where k': "k' < length (socketOnConnectedTask (socket st))"
    "socketOnConnectedTask (socket st) ! k' = AwaitingHandshake h"
    using ok unfolding handshakes_ok_def by blast
  have "k' \<noteq> k" using k k' h by auto
  then have "(socketOnConnectedTask (socket st))[k := t] ! k' = AwaitingHandshake h"
    using k' by simp
  then show "\<exists>k'<length ((socketOnConnectedTask (socket st))[k := t]).
      (socketOnConnectedTask (socket st))[k := t] ! k' = AwaitingHandshake h"
    using k' by auto
qed

lemma handshakes_ok_socketOnConnected:
  assumes "handshakes_ok st"
  shows "handshakes_ok (socketOnConnected st)"
  unfolding handshakes_ok_def
proof (intro allI impI)
  fix h
  assume "h < length (handshakes (socket (socketOnConnected st)))"
    "handshakes (socket (socketOnConnected st)) ! h = HPending"
  then have "h < length (handshakes (socket st))" "handshakes (socket st) ! h = HPending"
    by (simp_all add: socketOnConnected_def)
  then obtain k where k: "k < length (socketOnConnectedTask (socket st))"
    "socketOnConnectedTask (socket st) ! k = AwaitingHandshake h"
    using assms unfolding handshakes_ok_def by blast
  have "k < length (socketOnConnectedTask (socket (socketOnConnected st)))"
    "socketOnConnectedTask (socket (socketOnConnected st)) ! k = AwaitingHandshake h"
    using k by (simp_all add: socketOnConnected_def nth_append)
  then show "\<exists>k<length (socketOnConnectedTask (socket (socketOnConnected st))).
      socketOnConnectedTask (socket (socketOnConnected st)) ! k = AwaitingHandshake h"
    by blast
qed

lemma handshakes_ok_socket_message:
  assumes "handshakes_ok st"
  shows "handshakes_ok (socket_message m st)"
proof (cases "socket_onMessage (socket st)")
  case None
  then show ?thesis using assms by (simp add: socket_message_def)
next
  case (Some h0)
  show ?thesis
  proof (cases "h0 < length (handshakes (socket st))")
    case False
    then show ?thesis using assms Some by (simp add: socket_message_def)
  next
    case True
    let ?hs = "handshakes (socket st)"
    let ?new = "connection_handler m (?hs ! h0)"
    have e: "handshakes (socket (socket_message m st)) = ?hs[h0 := ?new]"
      "socketOnConnectedTask (socket (socket_message m st)) = socketOnConnectedTask (socket st)"
      using Some True by (simp_all add: socket_message_def)
    show ?thesis
      unfolding handshakes_ok_def e
    proof (intro allI impI)
      fix h
      assume h: "h < length (?hs[h0 := ?new])" "?hs[h0 := ?new] ! h = HPending"
      have "?hs ! h = HPending"
      proof (cases "h = h0")
        case True
        then have "?new = HPending" using h by simp
        then show ?thesis using connection_handler_settled [of "?hs ! h0" m] True by auto
      next
        case False
        then show ?thesis using h by simp
      qed
      then show "\<exists>k<length (socketOnConnectedTask (socket st)).
          socketOnConnectedTask (socket st) ! k = AwaitingHandshake h"
        using assms h unfolding handshakes_ok_def by simp
    qed
  qed
qed

lemma awaited_Some:
  "awaited st k = Some x \<Longrightarrow>
   \<exists>h. k < length (socketOnConnectedTask (socket st))
      \<and> socketOnConnectedTask (socket st) ! k = AwaitingHandshake h
      \<and> h < length (handshakes (socket st)) \<and> handshakes (socket st) ! h = x"
  by (auto simp: awaited_def split: if_splits task.splits)

lemma handshakes_ok_task_resumed:
  assumes "handshakes_ok st"
  shows "handshakes_ok (task_resumed env k st)"
proof (cases "awaited st k")
  case None
  then show ?thesis using assms by (simp add: task_resumed_def)
next
  case (Some x)
  then obtain h where h: "socketOnConnectedTask (socket st) ! k = AwaitingHandshake h"
    "h < length (handshakes (socket st))" "handshakes (socket st) ! h = x"
    using awaited_Some by blast
  show ?thesis
  proof (cases x)
    case HPending
    then show ?thesis using assms Some by (simp add: task_resumed_def socketOnConnectedTask_resume_def)
  next
    case (HRejected e)
    have "handshakes_ok (set_task k (Failed e) st)"
      using assms by (rule handshakes_ok_set_task) (use h HRejected in auto)
    then show ?thesis
      using Some HRejected by (simp add: task_resumed_def socketOnConnectedTask_resume_def)
  next
    case HResolved
    have t: "handshakes_ok (set_task k Completed st)"
      using assms by (rule handshakes_ok_set_task) (use h HResolved in auto)
    obtain s where r: "socketOnConnectedTask_resume env HResolved st k = onConnected env s"
      and 1: "handshakes (socket s) = handshakes (socket st)"
      and 2: "socketOnConnectedTask (socket s) = (socketOnConnectedTask (socket st))[k := Completed]"
      by (rule resume_resolved)
    have "handshakes_ok s = handshakes_ok (set_task k Completed st)"
      by (rule handshakes_ok_cong) (simp_all add: 1 2 set_task_fields)
    then have "handshakes_ok (onConnected env s)" using t by (simp add: onConnected_tasks)
    then show ?thesis
      using Some HResolved r by (simp add: task_resumed_def)
  qed
qed

lemma handshakes_ok_connectionMessage_settled:
  assumes "handshakes_ok st"
  shows "handshakes_ok (connectionMessage_settled env k r st)"
proof (cases "k < length (socketOnConnectedTask (socket st))
    \<and> socketOnConnectedTask (socket st) ! k = AwaitingConnectionMessage")
  case False
  then show ?thesis using assms by (auto simp: connectionMessage_settled_def)
next
  case True
  show ?thesis
  proof (cases r)
    case (Inl e)
    have "handshakes_ok (set_task k (Failed e) st)"
      using assms by (rule handshakes_ok_set_task) (use True in simp)
    then show ?thesis using True Inl by (simp add: connectionMessage_settled_def)
  next
    case (Inr cm)
    let ?hs = "handshakes (socket st)"
    let ?ts = "socketOnConnectedTask (socket st)"
    obtain x where e: "handshakes (socket (connectionMessage_settled env k r st)) = ?hs @ [x]"
      "socketOnConnectedTask (socket (connectionMessage_settled env k r st))
         = ?ts[k := AwaitingHandshake (length ?hs)]"
      using True Inr
      by (cases "transport_send env [] (length ?hs)")
         (simp_all add: connectionMessage_settled_def sendConnectionMessage_def Let_def
           set_task_fields)
    show ?thesis
      unfolding handshakes_ok_def e
    proof (intro allI impI)
      fix h
      assume h: "h < length (?hs @ [x])" "(?hs @ [x]) ! h = HPending"
      show "\<exists>k'<length (?ts[k := AwaitingHandshake (length ?hs)]).
          ?ts[k := AwaitingHandshake (length ?hs)] ! k' = AwaitingHandshake h"
      proof (cases "h = length ?hs")
        case True
        then show ?thesis using \<open>k < length ?ts \<and> ?ts ! k = AwaitingConnectionMessage\<close> by auto
      next
        case False
        then have "h < length ?hs" "?hs ! h = HPending" using h by (simp_all add: nth_append)
        then obtain k' where k': "k' < length ?ts" "?ts ! k' = AwaitingHandshake h"
          using assms unfolding handshakes_ok_def by blast
        then have "k' \<noteq> k" using True by auto
        then show ?thesis using k' by auto
      qed
    qed
  qed
qed

lemma handshakes_ok_push_model:
  "handshakes_ok st \<Longrightarrow> push_model env st m = Inr s \<Longrightarrow> handshakes_ok s"
  using push_model_quiet(9,10) [of env st m s] by (simp add: handshakes_ok_def)

lemma handshakes_ok_step: "handshakes_ok st \<Longrightarrow> handshakes_ok (step env st ev)"
proof (cases ev)
  case (SocketMessage m)
  then show "handshakes_ok st \<Longrightarrow> ?thesis" by (simp add: step_def handshakes_ok_socket_message)
next
  case (TaskResumed k)
  then show "handshakes_ok st \<Longrightarrow> ?thesis" by (simp add: step_def handshakes_ok_task_resumed)
next
  case (ConnectionMessageSettled k r)
  then show "handshakes_ok st \<Longrightarrow> ?thesis"
    by (simp add: step_def handshakes_ok_connectionMessage_settled)
next
  case SocketConnected
  then show "handshakes_ok st \<Longrightarrow> ?thesis" by (simp add: step_def handshakes_ok_socketOnConnected)
next
  case (Push ims p)
  assume ok: "handshakes_ok st"
  have 1: "handshakes_ok (throw e s)" if "handshakes_ok s" for e s
    using that by (simp add: handshakes_ok_def throw_def)
  have 2: "handshakes_ok (st\<lparr>internalModels := ims\<rparr>)"
    using ok by (simp add: handshakes_ok_def)
  show ?thesis
    unfolding Push using handshakes_ok_push_model 1 2 by (rule step_Push_preserves)
next
  case SocketDisconnected
  then show "handshakes_ok st \<Longrightarrow> ?thesis"
    by (simp add: step_def socketOnDisconnected_def onDisconnected_def handshakes_ok_def)
next
  case (SocketError a)
  then show "handshakes_ok st \<Longrightarrow> ?thesis"
    by (simp add: step_def socketOnError_def handshakes_ok_def)
next
  case (SubscribeMessage m)
  then show "handshakes_ok st \<Longrightarrow> ?thesis"
    by (auto simp: step_def throw_def handshakes_ok_def split: sum.splits)
next
  case (UpdatedMessage m)
  then show "handshakes_ok st \<Longrightarrow> ?thesis"
    by (auto simp: step_def throw_def handshakes_ok_def socket_onModelUpdated_def
        onModelUpdated_def Let_def split: sum.splits)
next
  case (DeletedMessage m)
  then show "handshakes_ok st \<Longrightarrow> ?thesis"
    by (auto simp: step_def throw_def handshakes_ok_def socket_onModelDeleted_def
        onModelDeleted_def Let_def split: sum.splits)
next
  case (StatePolled s)
  then show "handshakes_ok st \<Longrightarrow> ?thesis"
    by (simp add: step_def updateSocketState_def handshakes_ok_def)
qed

lemma handshakes_ok_run: "handshakes_ok st \<Longrightarrow> handshakes_ok (run env es st)"
  unfolding run_def by (rule foldl_preserves) (rule handshakes_ok_step)

lemma connection_handler_accepted: "connection_handler ''CONNECTION_ACCEPTED'' HPending = HResolved"
  by (simp add: connection_handler_def resolve_handshake_def)

lemma socket_message_accepted:
  assumes ok: "handshakes_ok st"
    and h: "socket_onMessage (socket st) = Some h" "h < length (handshakes (socket st))"
      "handshakes (socket st) ! h = HPending"
  shows "subscriptions (socket_message ''CONNECTION_ACCEPTED'' st) = subscriptions st"
    and "subscribeTask (socket_message ''CONNECTION_ACCEPTED'' st) = subscribeTask st"
    and "\<exists>k. awaited (socket_message ''CONNECTION_ACCEPTED'' st) k = Some HResolved"
proof -
  let ?s = "socket_message ''CONNECTION_ACCEPTED'' st"
  have e: "handshakes (socket ?s) = (handshakes (socket st))[h := HResolved]"
    "socketOnConnectedTask (socket ?s) = socketOnConnectedTask (socket st)"
    using h by (simp_all add: socket_message_def connection_handler_accepted)
  obtain k where k: "k < length (socketOnConnectedTask (socket st))"
    "socketOnConnectedTask (socket st) ! k = AwaitingHandshake h"
    using ok h unfolding handshakes_ok_def by blast
  have "awaited ?s k = Some HResolved"
    using k h by (simp add: awaited_def e)
  then show "\<exists>k. awaited ?s k = Some HResolved" by blast
  show "subscriptions ?s = subscriptions st" "subscribeTask ?s = subscribeTask st"
    by (simp_all add: socket_message_def split: option.split)
qed

text \<open>
  C2. Take the store after any sequence of events (in particular after a disconnect, a
  reconnect and the sending of the connection message), with a handshake pending on the
  registered handler. When \<open>CONNECTION_ACCEPTED\<close> arrives, the handler resolves the
  promise, for which a task is waiting; and when a task that waits for a resolved promise
  goes on, the socket becomes connected and \<open>subscribeTask\<close> is performed for the recorded
  pairs, all of them and in order, whether or not they were subscribed before; no pair
  occurs twice among them, so each gets exactly one request; and each request is one
  frame handed to the subscribe channel. The same holds of a task that goes on in any
  store that arises, whatever was handled since its promise was resolved: the pairs are
  those recorded when it goes on. The environment is arbitrary: the transport may throw
  in any of these sends, which rejects that request's promise and leaves the others to
  be attempted.
\<close>

theorem replay_on_accept:
  "let st = run env es store_init;
       st1 = step env st (SocketMessage ''CONNECTION_ACCEPTED'')
   in (\<forall>k. awaited st k = Some HResolved \<longrightarrow>
         (let st' = step env st (TaskResumed k)
          in connected (socket st')
             \<and> subscriptions st' = subscriptions st
             \<and> performed st' = performed st @ pairs (subscriptions st)
             \<and> distinct (pairs (subscriptions st))
             \<and> channel (subscribeCementChannel (socket st'))
                 = map (request_frame env) (subscribeTask st')))
      \<and> ((\<exists>h. socket_onMessage (socket st) = Some h \<and> h < length (handshakes (socket st))
               \<and> handshakes (socket st) ! h = HPending) \<longrightarrow>
            (\<exists>k. awaited st1 k = Some HResolved)
            \<and> (\<forall>k. awaited st1 k = Some HResolved \<longrightarrow>
                 (let st' = step env st1 (TaskResumed k)
                  in connected (socket st')
                     \<and> subscriptions st' = subscriptions st
                     \<and> performed st' = performed st @ pairs (subscriptions st)
                     \<and> distinct (pairs (subscriptions st))
                     \<and> channel (subscribeCementChannel (socket st'))
                         = map (request_frame env) (subscribeTask st'))))"
proof -
  have replay: "connected (socket (step env (run env es' store_init) (TaskResumed k)))
      \<and> subscriptions (step env (run env es' store_init) (TaskResumed k))
          = subscriptions (run env es' store_init)
      \<and> performed (step env (run env es' store_init) (TaskResumed k))
          = performed (run env es' store_init) @ pairs (subscriptions (run env es' store_init))
      \<and> distinct (pairs (subscriptions (run env es' store_init)))
      \<and> channel (subscribeCementChannel (socket (step env (run env es' store_init) (TaskResumed k))))
          = map (request_frame env) (subscribeTask (step env (run env es' store_init) (TaskResumed k)))"
    if a: "awaited (run env es' store_init) k = Some HResolved" for es' k
  proof -
    let ?st = "run env es' store_init"
    let ?st' = "step env ?st (TaskResumed k)"
    have r: "registry_ok ?st" by (rule registry_ok_run [OF registry_ok_init])
    have q: "requests_ok env ?st'"
      by (rule requests_ok_step [OF requests_ok_run [OF requests_ok_init]])
    have d: "distinct (pairs (subscriptions ?st))" using r by (rule registry_ok_distinct_pairs)
    have c: "channel (subscribeCementChannel (socket ?st')) = map (request_frame env) (subscribeTask ?st')"
      using q by (simp add: requests_ok_def)
    have i: "issued env ?st (TaskResumed k) = pairs (subscriptions ?st)"
      using a by (simp add: issued_def)
    have s: "subscriptions ?st' = subscriptions ?st"
      and p: "performed ?st' = performed ?st @ pairs (subscriptions ?st)"
      using step_TaskResumed_issued(1,2) [of env ?st k] i by simp_all
    have "connected (socket ?st')"
      using a by (cases rule: task_resumed_cases [of ?st k env])
        (simp_all add: step_def onConnected_fields)
    then show ?thesis using s p d c by simp
  qed
  let ?st = "run env es store_init"
  let ?st1 = "step env ?st (SocketMessage ''CONNECTION_ACCEPTED'')"
  have st1: "?st1 = run env (es @ [SocketMessage ''CONNECTION_ACCEPTED'']) store_init"
    by (simp add: run_snoc)
  have ok: "handshakes_ok ?st" by (rule handshakes_ok_run [OF handshakes_ok_init])
  have 1: "\<forall>k. awaited ?st k = Some HResolved \<longrightarrow>
         (let st' = step env ?st (TaskResumed k)
          in connected (socket st')
             \<and> subscriptions st' = subscriptions ?st
             \<and> performed st' = performed ?st @ pairs (subscriptions ?st)
             \<and> distinct (pairs (subscriptions ?st))
             \<and> channel (subscribeCementChannel (socket st'))
                 = map (request_frame env) (subscribeTask st'))"
    unfolding Let_def using replay [of es] by blast
  have 2: "(\<exists>k. awaited ?st1 k = Some HResolved)
            \<and> (\<forall>k. awaited ?st1 k = Some HResolved \<longrightarrow>
                 (let st' = step env ?st1 (TaskResumed k)
                  in connected (socket st')
                     \<and> subscriptions st' = subscriptions ?st
                     \<and> performed st' = performed ?st @ pairs (subscriptions ?st)
                     \<and> distinct (pairs (subscriptions ?st))
                     \<and> channel (subscribeCementChannel (socket st'))
                         = map (request_frame env) (subscribeTask st')))"
    if h: "socket_onMessage (socket ?st) = Some h" "h < length (handshakes (socket ?st))"
      "handshakes (socket ?st) ! h = HPending" for h
  proof -
    have e: "?st1 = socket_message ''CONNECTION_ACCEPTED'' ?st" by (simp add: step_def)
    have s: "subscriptions ?st1 = subscriptions ?st" "subscribeTask ?st1 = subscribeTask ?st"
      and x: "\<exists>k. awaited ?st1 k = Some HResolved"
      unfolding e using socket_message_accepted [OF ok h] by simp_all
    have p: "performed ?st1 = performed ?st" using s(2) by (simp add: performed_def)
    have "connected (socket (step env ?st1 (TaskResumed k)))
        \<and> subscriptions (step env ?st1 (TaskResumed k)) = subscriptions ?st
        \<and> performed (step env ?st1 (TaskResumed k)) = performed ?st @ pairs (subscriptions ?st)
        \<and> distinct (pairs (subscriptions ?st))
        \<and> channel (subscribeCementChannel (socket (step env ?st1 (TaskResumed k))))
            = map (request_frame env) (subscribeTask (step env ?st1 (TaskResumed k)))"
      if a: "awaited ?st1 k = Some HResolved" for k
      using replay [of "es @ [SocketMessage ''CONNECTION_ACCEPTED'']" k] a
      unfolding st1 [symmetric] s p by simp
    then show ?thesis using x unfolding Let_def by blast
  qed
  show ?thesis
    unfolding Let_def using 1 2 unfolding Let_def by blast
qed

text \<open>
  An instance: \<open>article 1\<close> was subscribed before the disconnect and \<open>article 2\<close> recorded
  while disconnected; when the second handshake is accepted and its task goes on, both
  are subscribed.
\<close>

lemma reconnect_state:
  "socket_onMessage (socket (run example_env reconnect_events store_init)) = Some (Suc 0)"
  "handshakes (socket (run example_env reconnect_events store_init)) = [HResolved, HPending]"
  "socketOnConnectedTask (socket (run example_env reconnect_events store_init))
     = [Completed, AwaitingHandshake (Suc 0)]"
  "subscriptions (run example_env reconnect_events store_init) = [(''article'', [''1'', ''2''])]"
  "subscribeTask (run example_env reconnect_events store_init) = [(''article'', ''1'', 0)]"
  by (simp_all add: reconnect_events_def connect_events_def articles_def article_def store_simps
      example_simps)

theorem replay_on_accept_witness:
  "connected (socket (run example_env
       (reconnect_events @ [SocketMessage ''CONNECTION_ACCEPTED'', TaskResumed 1]) store_init))
   \<and> performed (run example_env
       (reconnect_events @ [SocketMessage ''CONNECTION_ACCEPTED'', TaskResumed 1]) store_init)
     = [(''article'', ''1''), (''article'', ''1''), (''article'', ''2'')]"
proof -
  let ?st = "run example_env reconnect_events store_init"
  let ?st1 = "step example_env ?st (SocketMessage ''CONNECTION_ACCEPTED'')"
  have h: "\<exists>h. socket_onMessage (socket ?st) = Some h
      \<and> h < length (handshakes (socket ?st)) \<and> handshakes (socket ?st) ! h = HPending"
    by (simp add: reconnect_state)
  have a: "awaited ?st1 1 = Some HResolved"
    by (simp add: awaited_def step_def socket_message_def reconnect_state
        connection_handler_accepted)
  have r: "run example_env (reconnect_events @ [SocketMessage ''CONNECTION_ACCEPTED'', TaskResumed 1])
      store_init = step example_env ?st1 (TaskResumed 1)"
    by (simp add: run_def)
  have "connected (socket (step example_env ?st1 (TaskResumed 1)))
      \<and> performed (step example_env ?st1 (TaskResumed 1))
          = performed ?st @ pairs (subscriptions ?st)"
    using replay_on_accept [of example_env reconnect_events] h a
    unfolding Let_def by blast
  then show ?thesis
    unfolding r by (simp add: reconnect_state performed_def pairs_def)
qed

section \<open>The connected flag\<close>

lemma step_Push_field:
  assumes "\<And>s m s'. push_model env s m = Inr s' \<Longrightarrow> f s' = f s"
    and "\<And>s e. f (throw e s) = f s"
  shows "f (step env st (Push ims p)) = f (st\<lparr>internalModels := ims\<rparr>)"
proof -
  let ?P = "\<lambda>s. f s = f (st\<lparr>internalModels := ims\<rparr>)"
  have "?P (step env st (Push ims p))"
  proof (rule step_Push_preserves [where P = ?P])
    show "?P s'" if "?P s" "push_model env s m = Inr s'" for s m s'
      using that assms(1) by simp
    show "?P (throw e s)" if "?P s" for s e
      using that assms(2) by simp
    show "?P (st\<lparr>internalModels := ims\<rparr>)" by simp
  qed
  then show ?thesis .
qed

lemma step_Push_quiet:
  "host (step env st (Push ims p)) = host st"
  "invoked (step env st (Push ims p)) = invoked st"
  "internalModels (step env st (Push ims p)) = ims"
  "connected (socket (step env st (Push ims p))) = connected (socket st)"
  "state (socket (step env st (Push ims p))) = state (socket st)"
  "glue_socket (socket (step env st (Push ims p))) = glue_socket (socket st)"
  "socket_onMessage (socket (step env st (Push ims p))) = socket_onMessage (socket st)"
  "handshakes (socket (step env st (Push ims p))) = handshakes (socket st)"
  "socketOnConnectedTask (socket (step env st (Push ims p))) = socketOnConnectedTask (socket st)"
  "logged (socket (step env st (Push ims p))) = logged (socket st)"
proof -
  show "host (step env st (Push ims p)) = host st"
    using step_Push_field [of env host st ims p] by (simp add: push_model_quiet throw_def)
  show "invoked (step env st (Push ims p)) = invoked st"
    using step_Push_field [of env invoked st ims p] by (simp add: push_model_quiet throw_def)
  show "internalModels (step env st (Push ims p)) = ims"
    using step_Push_field [of env internalModels st ims p] by (simp add: push_model_quiet throw_def)
  show "connected (socket (step env st (Push ims p))) = connected (socket st)"
    using step_Push_field [of env "\<lambda>s. connected (socket s)" st ims p]
    by (simp add: push_model_quiet throw_def)
  show "state (socket (step env st (Push ims p))) = state (socket st)"
    using step_Push_field [of env "\<lambda>s. state (socket s)" st ims p]
    by (simp add: push_model_quiet throw_def)
  show "glue_socket (socket (step env st (Push ims p))) = glue_socket (socket st)"
    using step_Push_field [of env "\<lambda>s. glue_socket (socket s)" st ims p]
    by (simp add: push_model_quiet throw_def)
  show "socket_onMessage (socket (step env st (Push ims p))) = socket_onMessage (socket st)"
    using step_Push_field [of env "\<lambda>s. socket_onMessage (socket s)" st ims p]
    by (simp add: push_model_quiet throw_def)
  show "handshakes (socket (step env st (Push ims p))) = handshakes (socket st)"
    using step_Push_field [of env "\<lambda>s. handshakes (socket s)" st ims p]
    by (simp add: push_model_quiet throw_def)
  show "socketOnConnectedTask (socket (step env st (Push ims p))) = socketOnConnectedTask (socket st)"
    using step_Push_field [of env "\<lambda>s. socketOnConnectedTask (socket s)" st ims p]
    by (simp add: push_model_quiet throw_def)
  show "logged (socket (step env st (Push ims p))) = logged (socket st)"
    using step_Push_field [of env "\<lambda>s. logged (socket s)" st ims p]
    by (simp add: push_model_quiet throw_def)
qed

















section \<open>The handshake\<close>

text \<open>
  The three messages \<open>connection_handler\<close> reacts to, the messages on the main socket
  among some events, the events that make a task call \<open>sendConnectionMessage\<close> (and so
  replace the handler), and what the first of the three messages does to a pending
  promise.
\<close>

definition is_sentinel :: "string \<Rightarrow> bool" where
  "is_sentinel m =
     (m = ''CONNECTION_TIMEOUT'' \<or> m = ''CONNECTION_DISALLOWED'' \<or> m = ''CONNECTION_ACCEPTED'')"

fun socket_messages :: "event list \<Rightarrow> string list" where
  "socket_messages [] = []"
| "socket_messages (SocketMessage m # es) = m # socket_messages es"
| "socket_messages (ev # es) = socket_messages es"

fun is_connection_message :: "event \<Rightarrow> bool" where
  "is_connection_message (ConnectionMessageSettled k r) = True"
| "is_connection_message ev = False"

definition verdict :: "string \<Rightarrow> handshake" where
  "verdict m =
     (if m = ''CONNECTION_ACCEPTED'' then HResolved
      else if m = ''CONNECTION_DISALLOWED'' then HRejected (Error ''Connection was not accepted'')
      else HRejected (Error ''Did not send a connection message in time''))"

definition first_sentinel :: "string list \<Rightarrow> handshake" where
  "first_sentinel ms = (case find is_sentinel ms of None \<Rightarrow> HPending | Some m \<Rightarrow> verdict m)"

lemma handler_fold_settled:
  "h \<noteq> HPending \<Longrightarrow> foldl (\<lambda>x m. connection_handler m x) h ms = h"
  by (induction ms) (simp_all add: connection_handler_settled)

lemma handler_pending:
  "connection_handler m HPending = (if is_sentinel m then verdict m else HPending)"
  by (simp add: connection_handler_def is_sentinel_def verdict_def resolve_handshake_def
      reject_handshake_def)

lemma verdict_settled: "verdict m \<noteq> HPending"
  by (simp add: verdict_def)

lemma handler_fold_pending:
  "foldl (\<lambda>x m. connection_handler m x) HPending ms = first_sentinel ms"
  by (induction ms)
    (simp_all add: first_sentinel_def handler_pending handler_fold_settled verdict_settled)

lemma task_resumed_fields:
  "handshakes (socket (task_resumed env k st)) = handshakes (socket st)"
  "socket_onMessage (socket (task_resumed env k st)) = socket_onMessage (socket st)"
  "glue_socket (socket (task_resumed env k st)) = glue_socket (socket st)"
  "host (task_resumed env k st) = host st"
  "uncaught (task_resumed env k st) = uncaught st"
  "internalModels (task_resumed env k st) = internalModels st"
  "state (socket (task_resumed env k st)) = state (socket st)"
  "logged (socket (task_resumed env k st)) = logged (socket st)"
proof -
  have "handshakes (socket (task_resumed env k st)) = handshakes (socket st)
    \<and> socket_onMessage (socket (task_resumed env k st)) = socket_onMessage (socket st)
    \<and> glue_socket (socket (task_resumed env k st)) = glue_socket (socket st)
    \<and> host (task_resumed env k st) = host st
    \<and> uncaught (task_resumed env k st) = uncaught st
    \<and> internalModels (task_resumed env k st) = internalModels st
    \<and> state (socket (task_resumed env k st)) = state (socket st)
    \<and> logged (socket (task_resumed env k st)) = logged (socket st)"
  proof (cases "awaited st k")
    case None
    then show ?thesis by (simp add: task_resumed_def)
  next
    case (Some x)
    show ?thesis
    proof (cases x)
      case HResolved
      obtain s where "socketOnConnectedTask_resume env HResolved st k = onConnected env s"
        and "handshakes (socket s) = handshakes (socket st)"
        and "socket_onMessage (socket s) = socket_onMessage (socket st)"
        and "glue_socket (socket s) = glue_socket (socket st)"
        and "host s = host st" and "uncaught s = uncaught st"
        and "internalModels s = internalModels st"
        and "state (socket s) = state (socket st)" and "logged (socket s) = logged (socket st)"
        by (rule resume_resolved)
      then show ?thesis
        using Some HResolved by (simp add: task_resumed_def onConnected_fields)
    qed (use Some in \<open>simp_all add: task_resumed_def socketOnConnectedTask_resume_def
          set_task_fields\<close>)
  qed
  then show "handshakes (socket (task_resumed env k st)) = handshakes (socket st)"
    "socket_onMessage (socket (task_resumed env k st)) = socket_onMessage (socket st)"
    "glue_socket (socket (task_resumed env k st)) = glue_socket (socket st)"
    "host (task_resumed env k st) = host st"
    "uncaught (task_resumed env k st) = uncaught st"
    "internalModels (task_resumed env k st) = internalModels st"
    "state (socket (task_resumed env k st)) = state (socket st)"
    "logged (socket (task_resumed env k st)) = logged (socket st)"
    by simp_all
qed

lemma socket_message_handler:
  assumes "socket_onMessage (socket st) = Some h" and "h < length (handshakes (socket st))"
  shows "socket_onMessage (socket (socket_message m st)) = Some h"
    and "handshakes (socket (socket_message m st))
           = (handshakes (socket st))[h := connection_handler m (handshakes (socket st) ! h)]"
  using assms by (simp_all add: socket_message_def)

lemma step_handler:
  assumes h: "socket_onMessage (socket st) = Some h" "h < length (handshakes (socket st))"
    and n: "\<not> is_connection_message ev"
  shows "socket_onMessage (socket (step env st ev)) = Some h
     \<and> length (handshakes (socket (step env st ev))) = length (handshakes (socket st))
     \<and> handshakes (socket (step env st ev)) ! h
         = foldl (\<lambda>x m. connection_handler m x) (handshakes (socket st) ! h) (socket_messages [ev])"
proof (cases ev)
  case (SocketMessage m)
  then show ?thesis
    using socket_message_handler [OF h, of m] h(2) by (simp add: step_def)
next
  case (ConnectionMessageSettled k r)
  then show ?thesis using n by simp
next
  case (Push ims p)
  then show ?thesis using h by (simp add: step_Push_quiet)
next
  case (TaskResumed k)
  then show ?thesis using h by (simp add: step_def task_resumed_fields)
next
  case SocketDisconnected
  then show ?thesis
    using h by (simp add: step_def socketOnDisconnected_def onDisconnected_def)
next
  case (SocketError a)
  then show ?thesis using h by (simp add: step_def socketOnError_def)
next
  case SocketConnected
  then show ?thesis using h by (simp add: step_def socketOnConnected_def)
next
  case (SubscribeMessage m)
  then show ?thesis using h by (auto simp: step_def throw_def split: sum.splits)
next
  case (UpdatedMessage m)
  then show ?thesis
    using h
    by (auto simp: step_def throw_def socket_onModelUpdated_def onModelUpdated_def Let_def
        split: sum.splits)
next
  case (DeletedMessage m)
  then show ?thesis
    using h
    by (auto simp: step_def throw_def socket_onModelDeleted_def onModelDeleted_def Let_def
        split: sum.splits)
next
  case (StatePolled s)
  then show ?thesis using h by (auto simp: step_def updateSocketState_def)
qed

lemma socket_messages_Cons:
  "foldl f x (socket_messages (ev # es)) = foldl f (foldl f x (socket_messages [ev])) (socket_messages es)"
  by (cases ev) simp_all

lemma run_handler:
  assumes "socket_onMessage (socket st) = Some h" and "h < length (handshakes (socket st))"
    and "\<forall>ev\<in>set es. \<not> is_connection_message ev"
  shows "handshakes (socket (run env es st)) ! h
     = foldl (\<lambda>x m. connection_handler m x) (handshakes (socket st) ! h) (socket_messages es)"
  using assms
proof (induction es arbitrary: st)
  case Nil
  then show ?case by (simp add: run_def)
next
  case (Cons ev es)
  have n: "\<not> is_connection_message ev" using Cons.prems(3) by simp
  note s = step_handler [OF Cons.prems(1,2) n, of env]
  have "handshakes (socket (run env es (step env st ev))) ! h
      = foldl (\<lambda>x m. connection_handler m x) (handshakes (socket (step env st ev)) ! h)
          (socket_messages es)"
    using s Cons.prems(2,3) by (intro Cons.IH) simp_all
  then show ?case
    using s by (simp add: run_Cons socket_messages_Cons [of _ _ ev es])
qed

text \<open>
  C4 (as amended). The promise of \<open>sendConnectionMessage\<close> is settled by the first of the
  three sentinels that arrives on the main socket while its handler is registered:
  resolved by \<open>CONNECTION_ACCEPTED\<close>, rejected with "Connection was not accepted" by
  \<open>CONNECTION_DISALLOWED\<close>, rejected with "Did not send a connection message in time" by
  \<open>CONNECTION_TIMEOUT\<close>, the server's own timeout notice. Other messages and other
  events, the timer of the state poll among them, do not settle it: while none of the
  three has arrived it is pending. (When the transport throws in the send, it is rejected
  with that error at once.)
\<close>

theorem handshake_settled_by_first_sentinel:
  assumes "\<forall>ev\<in>set es. \<not> is_connection_message ev"
  shows "let (h, rs) = sendConnectionMessage env connectionMessage (socket st);
             st' = run env es (st\<lparr>socket := rs\<rparr>)
         in h = length (handshakes (socket st))
            \<and> handshakes (socket st') ! h =
                (case transport_send env [] h of
                   Some e \<Rightarrow> HRejected e
                 | None \<Rightarrow>
                     (case find is_sentinel (socket_messages es) of
                        None \<Rightarrow> HPending
                      | Some m \<Rightarrow> verdict m))"
proof -
  let ?h = "length (handshakes (socket st))"
  have "fst (sendConnectionMessage env connectionMessage (socket st)) = ?h"
    by (simp add: sendConnectionMessage_def Let_def split: option.split)
  then obtain rs where rs: "sendConnectionMessage env connectionMessage (socket st) = (?h, rs)"
    by (cases "sendConnectionMessage env connectionMessage (socket st)") simp
  have o: "socket_onMessage rs = Some ?h" and l: "?h < length (handshakes rs)"
    and v: "handshakes rs ! ?h
        = (case transport_send env [] ?h of Some e \<Rightarrow> HRejected e | None \<Rightarrow> HPending)"
    using rs by (auto simp: sendConnectionMessage_def Let_def split: option.splits)
  have "handshakes (socket (run env es (st\<lparr>socket := rs\<rparr>))) ! ?h
      = foldl (\<lambda>x m. connection_handler m x) (handshakes rs ! ?h) (socket_messages es)"
    using run_handler [of "st\<lparr>socket := rs\<rparr>" ?h es env] o l assms by simp
  also have "\<dots> = (case transport_send env [] ?h of
                   Some e \<Rightarrow> HRejected e
                 | None \<Rightarrow>
                     (case find is_sentinel (socket_messages es) of
                        None \<Rightarrow> HPending
                      | Some m \<Rightarrow> verdict m))"
    unfolding v
    by (simp add: handler_fold_settled handler_fold_pending first_sentinel_def split: option.split)
  finally show ?thesis
    unfolding rs by simp
qed

text \<open>
  An instance: a poll and a foreign message change nothing, \<open>CONNECTION_DISALLOWED\<close>
  rejects the promise, and the \<open>CONNECTION_ACCEPTED\<close> after it comes too late.
\<close>

theorem handshake_settled_by_first_sentinel_witness:
  "handshakes (socket (run example_env
       [StatePolled ''connected'', SocketMessage ''PING'', SocketMessage ''CONNECTION_DISALLOWED'',
        SocketMessage ''CONNECTION_ACCEPTED'']
       (store_init\<lparr>socket := snd (sendConnectionMessage example_env ''hi'' (socket store_init))\<rparr>))) ! 0
   = HRejected (Error ''Connection was not accepted'')"
proof -
  let ?es = "[StatePolled ''connected'', SocketMessage ''PING'',
      SocketMessage ''CONNECTION_DISALLOWED'', SocketMessage ''CONNECTION_ACCEPTED'']"
  have h: "\<forall>ev\<in>set ?es. \<not> is_connection_message ev" by simp
  have s: "sendConnectionMessage example_env ''hi'' (socket store_init)
      = (0, RealtimeSocket_init\<lparr>socket_onMessage := Some 0, glue_socket := [''hi''],
              handshakes := [HPending]\<rparr>)"
    by (simp add: sendConnectionMessage_def store_init_def RealtimeSocket_init_def example_env_def)
  have t: "transport_send example_env [] 0 = None" by (simp add: example_env_def)
  show ?thesis
    using handshake_settled_by_first_sentinel [OF h, of example_env "''hi''" store_init]
    by (simp add: s t is_sentinel_def verdict_def)
qed

text \<open>
  C4 as stated fails: the code starts no timer for the handshake. After the connection
  message is sent, polls of the socket state and a message that is none of the three
  sentinels leave the promise pending and the task waiting, however many of them follow.
\<close>

theorem handshake_never_settles_counterexample:
  "handshakes (socket (run example_env
       [SocketConnected, ConnectionMessageSettled 0 (Inr ''hi''), StatePolled ''connecting'',
        StatePolled ''connected'', SocketMessage ''PING'', StatePolled ''connected'']
       store_init)) = [HPending]
   \<and> socketOnConnectedTask (socket (run example_env
       [SocketConnected, ConnectionMessageSettled 0 (Inr ''hi''), StatePolled ''connecting'',
        StatePolled ''connected'', SocketMessage ''PING'', StatePolled ''connected'']
       store_init)) = [AwaitingHandshake 0]"
  by (simp add: store_simps example_simps)

section \<open>Pending requests\<close>

text \<open>
  \<open>extends st st'\<close>: the promises of the subscribe channel in \<open>st'\<close> are those of \<open>st\<close>,
  each as it was, followed by new ones. Every event other than a frame on the subscribe
  channel extends the store.
\<close>

fun is_subscribe_message :: "event \<Rightarrow> bool" where
  "is_subscribe_message (SubscribeMessage message) = True"
| "is_subscribe_message ev = False"

definition extends :: "store \<Rightarrow> store \<Rightarrow> bool" where
  "extends st st' =
     (\<exists>xs. promises (subscribeCementChannel (socket st'))
            = promises (subscribeCementChannel (socket st)) @ xs)"

lemma extends_refl: "extends st st"
  by (simp add: extends_def)

lemma extends_same:
  "subscribeCementChannel (socket st') = subscribeCementChannel (socket st) \<Longrightarrow> extends st st'"
  by (simp add: extends_def)

lemma extends_trans: "extends a b \<Longrightarrow> extends b c \<Longrightarrow> extends a c"
  by (auto simp: extends_def)

lemma extends_foldl:
  assumes "\<And>s k. extends s (f s k)"
  shows "extends st (foldl f st ks)"
proof (induction ks arbitrary: st)
  case Nil
  then show ?case by (simp add: extends_refl)
next
  case (Cons k ks)
  have "extends st (f st k)" by (rule assms)
  moreover have "extends (f st k) (foldl f (f st k) ks)" by (rule Cons.IH)
  ultimately show ?case by (simp add: extends_trans)
qed

lemma extends_subscribeTask_perform: "extends st (subscribeTask_perform env n i st)"
  by (simp add: extends_def subscribeTask_perform_def subscribe_def send_def Let_def
      split: option.split)

lemma extends_onConnected: "extends st (onConnected env st)"
  unfolding onConnected_def
  by (rule extends_foldl) (auto intro: extends_foldl extends_subscribeTask_perform)

lemma extends_push_model:
  assumes "push_model env st m = Inr s"
  shows "extends st s"
proof -
  have "extends st (subscribeTask_perform env n i st\<lparr>subscriptions := x\<rparr>)" for n i x
    using extends_subscribeTask_perform [of st env n i] by (simp add: extends_def)
  then show ?thesis
    using assms
    by (auto simp: push_model_def Let_def extends_same split: if_splits property.splits)
qed

lemma extends_push: "extends st (step env st (Push ims p))"
proof (rule step_Push_preserves)
  show "extends st s'" if "extends st s" "push_model env s m = Inr s'" for s m s'
    using that extends_push_model extends_trans by blast
  show "extends st (throw e s)" if "extends st s" for s e
    using that by (simp add: extends_def throw_def)
  show "extends st (st\<lparr>internalModels := ims\<rparr>)" by (simp add: extends_def)
qed

lemma extends_task_resumed: "extends st (task_resumed env k st)"
proof (cases rule: task_resumed_cases [of st k env])
  case waits
  then show ?thesis by (simp add: extends_same)
next
  case (accepted s)
  have "extends st s" using accepted(7) by (rule extends_same)
  then have "extends st (onConnected env s)"
    using extends_onConnected [of s env] by (rule extends_trans)
  then show ?thesis using accepted(2) by simp
qed

lemma extends_socket_message: "extends st (socket_message m st)"
  by (rule extends_same) (simp add: socket_message_def split: option.split)

lemma extends_step:
  assumes "\<not> is_subscribe_message ev"
  shows "extends st (step env st ev)"
proof (cases ev)
  case (SocketMessage m)
  then show ?thesis by (simp add: step_def extends_socket_message)
next
  case (ConnectionMessageSettled k r)
  then show ?thesis
    by (simp add: step_def extends_same connectionMessage_settled_fields)
next
  case (Push ims p)
  then show ?thesis by (simp add: extends_push)
next
  case (TaskResumed k)
  then show ?thesis by (simp add: step_def extends_task_resumed)
next
  case SocketDisconnected
  then show ?thesis
    by (simp add: step_def extends_same socketOnDisconnected_def onDisconnected_def)
next
  case (SocketError a)
  then show ?thesis by (simp add: step_def extends_same socketOnError_def)
next
  case SocketConnected
  then show ?thesis by (simp add: step_def extends_same socketOnConnected_def)
next
  case (SubscribeMessage m)
  then show ?thesis using assms by simp
next
  case (UpdatedMessage m)
  then show ?thesis
    by (auto simp: step_def throw_def socket_onModelUpdated_def onModelUpdated_def Let_def
        split: sum.splits intro!: extends_same)
next
  case (DeletedMessage m)
  then show ?thesis
    by (auto simp: step_def throw_def socket_onModelDeleted_def onModelDeleted_def Let_def
        split: sum.splits intro!: extends_same)
next
  case (StatePolled s)
  then show ?thesis by (auto simp: step_def updateSocketState_def intro!: extends_same)
qed

lemma extends_run:
  "\<forall>ev\<in>set es. \<not> is_subscribe_message ev \<Longrightarrow> extends st (run env es st)"
proof (induction es arbitrary: st)
  case Nil
  then show ?case by (simp add: run_def extends_refl)
next
  case (Cons ev es)
  have "extends st (step env st ev)" using Cons.prems by (simp add: extends_step)
  moreover have "extends (step env st ev) (run env es (step env st ev))"
    using Cons.prems by (intro Cons.IH) simp
  ultimately show ?case by (simp add: run_Cons extends_trans)
qed

text \<open>
  C7 (as amended). The handler of the transport's \<open>disconnected\<close> event leaves the
  subscribe channel as it is: no pending request is settled or removed, and no task
  instance changes. Nor does any later event settle one, short of a frame on the
  subscribe channel: through any sequence of other events (disconnects, reconnects,
  handshakes, polls, pushes) every promise of \<open>send\<close> stays as it was, a pending one
  pending.
\<close>

theorem disconnect_leaves_pending_requests:
  assumes "\<forall>ev\<in>set es. \<not> is_subscribe_message ev"
  shows "subscribeCementChannel (socket (step env st SocketDisconnected))
           = subscribeCementChannel (socket st)
         \<and> subscribeTask (step env st SocketDisconnected) = subscribeTask st
         \<and> take (length (promises (subscribeCementChannel (socket st))))
              (promises (subscribeCementChannel (socket (run env es st))))
           = promises (subscribeCementChannel (socket st))"
proof -
  have "extends st (run env es st)" using assms by (rule extends_run)
  then have "take (length (promises (subscribeCementChannel (socket st))))
              (promises (subscribeCementChannel (socket (run env es st))))
           = promises (subscribeCementChannel (socket st))"
    by (auto simp: extends_def)
  then show ?thesis
    by (simp add: step_def socketOnDisconnected_def onDisconnected_def)
qed

text \<open>
  An instance: a request is pending; after a disconnect and a reconnect with an accepted
  handshake, whose task has gone on, it is pending still.
\<close>

theorem disconnect_leaves_pending_requests_witness:
  "take 1 (promises (subscribeCementChannel (socket (run example_env
       [SocketDisconnected, SocketConnected, ConnectionMessageSettled 1 (Inr ''hi''),
        SocketMessage ''CONNECTION_ACCEPTED'', TaskResumed 1]
       (run example_env (connect_events @ [Push articles (POne 0)]) store_init)))))
   = [Pending]"
proof -
  let ?es = "[SocketDisconnected, SocketConnected, ConnectionMessageSettled 1 (Inr ''hi''),
      SocketMessage ''CONNECTION_ACCEPTED'', TaskResumed 1]"
  let ?st = "run example_env (connect_events @ [Push articles (POne 0)]) store_init"
  have h: "\<forall>ev\<in>set ?es. \<not> is_subscribe_message ev" by simp
  have p: "promises (subscribeCementChannel (socket ?st)) = [Pending]"
    by (simp add: connect_events_def articles_def article_def store_simps example_simps)
  show ?thesis
    using disconnect_leaves_pending_requests [OF h, of example_env ?st] by (simp add: p)
qed

text \<open>
  C7 as stated fails: a request sent while connected is still pending, and still recorded,
  after the disconnect.
\<close>

theorem disconnect_rejects_pending_counterexample:
  "promises (subscribeCementChannel (socket (run example_env
       (connect_events @ [Push articles (POne 0), SocketDisconnected]) store_init)))
     = [Pending]
   \<and> cementMessages (subscribeCementChannel (socket (run example_env
       (connect_events @ [Push articles (POne 0), SocketDisconnected]) store_init)))
     = [(''u'', 0)]"
  by (simp add: connect_events_def articles_def article_def store_simps example_simps)

text \<open>
  C5 (as amended). When a frame arrives on the subscribe channel whose id matches no
  pending request, handling it leaves the channel as it is, every pending request and
  every promise, and writes nothing to the log.
\<close>

theorem unknown_id_leaves_requests:
  assumes "\<forall>i. response_for env i message \<longrightarrow>
             map_of (cementMessages (subscribeCementChannel (socket st))) i = None"
  shows "subscribeCementChannel (socket (step env st (SubscribeMessage message)))
           = subscribeCementChannel (socket st)
         \<and> logged (socket (step env st (SubscribeMessage message))) = logged (socket st)"
proof (cases "onMessage env message (subscribeCementChannel (socket st))")
  case (Inl e)
  then show ?thesis by (simp add: step_def throw_def)
next
  case (Inr c)
  then obtain i where "response_for env i message"
    "map_of (cementMessages (subscribeCementChannel (socket st))) i \<noteq> None"
    by (auto simp: onMessage_def response_for_def split: sum.splits option.splits)
  then have False using assms by simp
  then show ?thesis ..
qed

text \<open>An instance: a request with id \<open>u\<close> is pending and a frame with id \<open>zzz\<close> arrives.\<close>

theorem unknown_id_leaves_requests_witness:
  "promises (subscribeCementChannel (socket (step example_env
       (run example_env (connect_events @ [Push articles (POne 0)]) store_init)
       (SubscribeMessage frame_unknown)))) = [Pending]
   \<and> cementMessages (subscribeCementChannel (socket (step example_env
       (run example_env (connect_events @ [Push articles (POne 0)]) store_init)
       (SubscribeMessage frame_unknown)))) = [(''u'', 0)]"
proof -
  let ?st = "run example_env (connect_events @ [Push articles (POne 0)]) store_init"
  have c: "cementMessages (subscribeCementChannel (socket ?st)) = [(''u'', 0)]"
    "promises (subscribeCementChannel (socket ?st)) = [Pending]"
    by (simp_all add: connect_events_def articles_def article_def store_simps example_simps)
  have "\<forall>i. response_for example_env i frame_unknown \<longrightarrow>
      map_of (cementMessages (subscribeCementChannel (socket ?st))) i = None"
    unfolding c by (simp add: response_for_def get_prop_def ToPropertyKey_def example_simps)
  from unknown_id_leaves_requests [OF this] show ?thesis
    by (simp add: c)
qed

text \<open>
  C5 as stated fails: \<open>onMessage\<close> reads \<open>resolve\<close> of the missing entry, so the handler
  ends with a TypeError, which leaves it uncaught, and nothing is logged.
\<close>

theorem unknown_id_throws:
  "onMessage example_env frame_unknown (snd (send example_env ''d'' CementChannel_init))
     = Inl TypeError
   \<and> uncaught (run example_env
       (connect_events @ [Push articles (POne 0), SubscribeMessage frame_unknown]) store_init)
     = [TypeError]
   \<and> logged (socket (run example_env
       (connect_events @ [Push articles (POne 0), SubscribeMessage frame_unknown]) store_init))
     = []
   \<and> promises (subscribeCementChannel (socket (run example_env
       (connect_events @ [Push articles (POne 0), SubscribeMessage frame_unknown]) store_init)))
     = [Pending]"
  by (simp add: connect_events_def articles_def article_def store_simps example_simps)

section \<open>Inbound notifications\<close>

text \<open>
  C6 (as amended). An update or delete push that decodes is never dropped and raises no
  error in this layer, whether or not its wire name is bound: the socket invokes the
  callback with the wire name, the id and, for an update, the decoded payload, and the
  mixin hands the payload to \<open>pushPayload\<close>, or the id to \<open>find\<close> of \<open>deleteRecordTask\<close>,
  under whatever \<open>jsonapiModelNames\<close> yields for the wire name, which is \<open>undefined\<close> for
  an unbound one. Nothing else of the store changes.
\<close>

theorem push_dispatched_with_looked_up_name:
  "(JSON_parse env data = Inr message \<and> get_prop message ''model'' = Inr m
      \<and> get_prop message ''id'' = Inr i \<and> get_prop message ''payload'' = Inr pl
      \<and> JSON_parse env (ToPropertyKey pl) = Inr payload \<longrightarrow>
    step env st (UpdatedMessage data) =
      st\<lparr>invoked := invoked st @ [OnModelUpdated m i payload],
          host := host st @
            [PushPayload (map_of (jsonapiModelNames st) (ToPropertyKey m)) payload]\<rparr>)
   \<and> (JSON_parse env data = Inr message \<and> get_prop message ''model'' = Inr m
      \<and> get_prop message ''id'' = Inr i \<longrightarrow>
    step env st (DeletedMessage data) =
      st\<lparr>invoked := invoked st @ [OnModelDeleted m i],
          host := host st @ [Find (map_of (jsonapiModelNames st) (ToPropertyKey m)) i]\<rparr>)"
  by (simp add: step_def socket_onModelUpdated_def onModelUpdated_def socket_onModelDeleted_def
      onModelDeleted_def Let_def)

text \<open>An instance: an update and a delete for \<open>article\<close> in the initial store, where nothing is bound.\<close>

theorem push_dispatched_with_looked_up_name_witness:
  "step example_env store_init (UpdatedMessage frame_update) =
     store_init\<lparr>invoked :=
         [OnModelUpdated (Some (JStr ''article'')) (Some (JStr ''1'')) (JObj [(''title'', JStr ''x'')])],
       host := [PushPayload None (JObj [(''title'', JStr ''x'')])]\<rparr>
   \<and> step example_env store_init (DeletedMessage frame_delete) =
     store_init\<lparr>invoked := [OnModelDeleted (Some (JStr ''article'')) (Some (JStr ''1''))],
       host := [Find None (Some (JStr ''1''))]\<rparr>"
proof -
  let ?u = "JObj [(''model'', JStr ''article''), (''id'', JStr ''1''),
                  (''payload'', JStr frame_update_payload)]"
  let ?d = "JObj [(''model'', JStr ''article''), (''id'', JStr ''1'')]"
  have u: "JSON_parse example_env frame_update = Inr ?u \<and> get_prop ?u ''model'' = Inr (Some (JStr ''article''))
      \<and> get_prop ?u ''id'' = Inr (Some (JStr ''1''))
      \<and> get_prop ?u ''payload'' = Inr (Some (JStr frame_update_payload))
      \<and> JSON_parse example_env (ToPropertyKey (Some (JStr frame_update_payload)))
          = Inr (JObj [(''title'', JStr ''x'')])"
    by (simp add: get_prop_def ToPropertyKey_def example_simps)
  have d: "JSON_parse example_env frame_delete = Inr ?d \<and> get_prop ?d ''model'' = Inr (Some (JStr ''article''))
      \<and> get_prop ?d ''id'' = Inr (Some (JStr ''1''))"
    by (simp add: get_prop_def example_simps)
  have n: "map_of (jsonapiModelNames store_init) (ToPropertyKey (Some (JStr ''article''))) = None"
    "invoked store_init = []" "host store_init = []"
    by (simp_all add: store_init_def)
  show ?thesis
    using push_dispatched_with_looked_up_name [of example_env frame_update ?u
        "Some (JStr ''article'')" "Some (JStr ''1'')" "Some (JStr frame_update_payload)"
        "JObj [(''title'', JStr ''x'')]" store_init]
      push_dispatched_with_looked_up_name [of example_env frame_delete ?d
        "Some (JStr ''article'')" "Some (JStr ''1'')" pl payload store_init] u d
    by (simp add: n)
qed

text \<open>
  C6 as stated fails: with no binding for the wire name, the update is dispatched to
  \<open>pushPayload\<close> and the delete to \<open>find\<close> with an undefined model name, and no error is
  thrown or logged.
\<close>

theorem unbound_name_dispatched:
  "host (run example_env [UpdatedMessage frame_update, DeletedMessage frame_delete] store_init)
     = [PushPayload None (JObj [(''title'', JStr ''x'')]), Find None (Some (JStr ''1''))]
   \<and> uncaught (run example_env [UpdatedMessage frame_update, DeletedMessage frame_delete] store_init)
     = []
   \<and> logged (socket
       (run example_env [UpdatedMessage frame_update, DeletedMessage frame_delete] store_init))
     = []"
  by (simp add: store_simps example_simps)

text \<open>
  C9 (as amended). When \<open>JSON.parse\<close> decodes the update frame
  \<open>{model:'article', id:'1', payload:'{"title":"x"}'}\<close> and its nested payload, and
  \<open>jsonapiModelNames\<close> binds \<open>article\<close> to \<open>post\<close>, the socket invokes \<open>onModelUpdated\<close> with
  the wire name \<open>article\<close>, the id \<open>1\<close> and the decoded payload, and the mixin calls
  \<open>pushPayload\<close> with the local name \<open>post\<close> and the decoded payload; the id is not passed
  on. Nothing else of the store changes.
\<close>

theorem update_pushes_payload_under_local_name:
  assumes "JSON_parse env frame_update =
             Inr (JObj [(''model'', JStr ''article''), (''id'', JStr ''1''),
                        (''payload'', JStr frame_update_payload)])"
    and "JSON_parse env frame_update_payload = Inr (JObj [(''title'', JStr ''x'')])"
    and "map_of (jsonapiModelNames st) ''article'' = Some ''post''"
  shows "step env st (UpdatedMessage frame_update) =
     st\<lparr>invoked := invoked st @
            [OnModelUpdated (Some (JStr ''article'')) (Some (JStr ''1''))
               (JObj [(''title'', JStr ''x'')])],
         host := host st @ [PushPayload (Some ''post'') (JObj [(''title'', JStr ''x'')])]\<rparr>"
  using assms
  by (simp add: step_def socket_onModelUpdated_def onModelUpdated_def get_prop_def
      ToPropertyKey_def Let_def)

text \<open>
  An instance: in \<open>article_env\<close>, after a connection and a push of \<open>post 1\<close>, which binds
  \<open>article\<close> to \<open>post\<close>.
\<close>

theorem update_pushes_payload_under_local_name_witness:
  "host (step article_env
       (run article_env (connect_events @ [Push posts (POne 0)]) store_init)
       (UpdatedMessage frame_update))
   = [PushPayload (Some ''post'') (JObj [(''title'', JStr ''x'')])]"
proof -
  let ?st = "run article_env (connect_events @ [Push posts (POne 0)]) store_init"
  have 1: "JSON_parse article_env frame_update =
             Inr (JObj [(''model'', JStr ''article''), (''id'', JStr ''1''),
                        (''payload'', JStr frame_update_payload)])"
    and 2: "JSON_parse article_env frame_update_payload = Inr (JObj [(''title'', JStr ''x'')])"
    by (simp_all add: article_env_def example_simps)
  have 3: "map_of (jsonapiModelNames ?st) ''article'' = Some ''post''"
    and 4: "host ?st = []"
    by (simp_all add: article_env_def connect_events_def posts_def post_def store_simps example_simps)
  show ?thesis
    using update_pushes_payload_under_local_name [OF 1 2 3] 4 by simp
qed

text \<open>
  C9 as stated fails: no call carries the local name together with the id. These are all
  the callbacks invoked and all the calls into the host in that run.
\<close>

theorem update_handler_arguments_counterexample:
  "invoked (run article_env
       (connect_events @ [Push posts (POne 0), UpdatedMessage frame_update]) store_init)
     = [OnConnected,
        OnModelUpdated (Some (JStr ''article'')) (Some (JStr ''1'')) (JObj [(''title'', JStr ''x'')])]
   \<and> host (run article_env
       (connect_events @ [Push posts (POne 0), UpdatedMessage frame_update]) store_init)
     = [PushPayload (Some ''post'') (JObj [(''title'', JStr ''x'')])]"
  by (simp add: article_env_def connect_events_def posts_def post_def store_simps example_simps)

section \<open>What a push leaves alone\<close>

text \<open>
  Whether \<open>_push\<close> returns or throws, of the store it changes at most \<open>subscriptions\<close>,
  \<open>jsonapiModelNames\<close>, the instances of \<open>subscribeTask\<close> and the subscribe channel: the
  internal models, which are the pushed records, and every other field of the store and
  of the socket are as before. For \<open>null\<close> it leaves the store as it was and returns
  \<open>null\<close>.
\<close>

lemma push_models_quiet:
  "host (snd (push_models env st ms)) = host st"
  "invoked (snd (push_models env st ms)) = invoked st"
  "uncaught (snd (push_models env st ms)) = uncaught st"
  "internalModels (snd (push_models env st ms)) = internalModels st"
  "connected (socket (snd (push_models env st ms))) = connected (socket st)"
  "state (socket (snd (push_models env st ms))) = state (socket st)"
  "glue_socket (socket (snd (push_models env st ms))) = glue_socket (socket st)"
  "socket_onMessage (socket (snd (push_models env st ms))) = socket_onMessage (socket st)"
  "handshakes (socket (snd (push_models env st ms))) = handshakes (socket st)"
  "socketOnConnectedTask (socket (snd (push_models env st ms))) = socketOnConnectedTask (socket st)"
  "logged (socket (snd (push_models env st ms))) = logged (socket st)"
proof -
  have f: "f (snd (push_models env st ms)) = f st"
    if "\<And>s m s'. push_model env s m = Inr s' \<Longrightarrow> f s' = f s" for f :: "store \<Rightarrow> 'a"
  proof (rule push_models_preserves [where P = "\<lambda>s. f s = f st"])
    show "f s' = f st" if "f s = f st" "push_model env s m = Inr s'" for s m s'
      using that \<open>\<And>s m s'. push_model env s m = Inr s' \<Longrightarrow> f s' = f s\<close> by simp
    show "f st = f st" by simp
  qed
  show "host (snd (push_models env st ms)) = host st"
    using f [of host] by (simp add: push_model_quiet)
  show "invoked (snd (push_models env st ms)) = invoked st"
    using f [of invoked] by (simp add: push_model_quiet)
  show "uncaught (snd (push_models env st ms)) = uncaught st"
    using f [of uncaught] by (simp add: push_model_quiet)
  show "internalModels (snd (push_models env st ms)) = internalModels st"
    using f [of internalModels] by (simp add: push_model_quiet)
  show "connected (socket (snd (push_models env st ms))) = connected (socket st)"
    using f [of "\<lambda>s. connected (socket s)"] by (simp add: push_model_quiet)
  show "state (socket (snd (push_models env st ms))) = state (socket st)"
    using f [of "\<lambda>s. state (socket s)"] by (simp add: push_model_quiet)
  show "glue_socket (socket (snd (push_models env st ms))) = glue_socket (socket st)"
    using f [of "\<lambda>s. glue_socket (socket s)"] by (simp add: push_model_quiet)
  show "socket_onMessage (socket (snd (push_models env st ms))) = socket_onMessage (socket st)"
    using f [of "\<lambda>s. socket_onMessage (socket s)"] by (simp add: push_model_quiet)
  show "handshakes (socket (snd (push_models env st ms))) = handshakes (socket st)"
    using f [of "\<lambda>s. handshakes (socket s)"] by (simp add: push_model_quiet)
  show "socketOnConnectedTask (socket (snd (push_models env st ms))) = socketOnConnectedTask (socket st)"
    using f [of "\<lambda>s. socketOnConnectedTask (socket s)"] by (simp add: push_model_quiet)
  show "logged (socket (snd (push_models env st ms))) = logged (socket st)"
    using f [of "\<lambda>s. logged (socket s)"] by (simp add: push_model_quiet)
qed

lemma push_leaves_alone:
  "mixin_push env PNull st = (Inr PNull, st)
   \<and> internalModels (snd (mixin_push env p st)) = internalModels st
   \<and> host (snd (mixin_push env p st)) = host st
   \<and> invoked (snd (mixin_push env p st)) = invoked st
   \<and> uncaught (snd (mixin_push env p st)) = uncaught st
   \<and> connected (socket (snd (mixin_push env p st))) = connected (socket st)
   \<and> state (socket (snd (mixin_push env p st))) = state (socket st)
   \<and> glue_socket (socket (snd (mixin_push env p st))) = glue_socket (socket st)
   \<and> socket_onMessage (socket (snd (mixin_push env p st))) = socket_onMessage (socket st)
   \<and> handshakes (socket (snd (mixin_push env p st))) = handshakes (socket st)
   \<and> socketOnConnectedTask (socket (snd (mixin_push env p st))) = socketOnConnectedTask (socket st)
   \<and> logged (socket (snd (mixin_push env p st))) = logged (socket st)"
proof -
  have "mixin_push env PNull st = (Inr PNull, st)" by (simp add: mixin_push_def)
  then show ?thesis
    unfolding mixin_push_models [of env p st] by (simp add: push_models_quiet)
qed

text \<open>
  In a store that arises, \<open>_push\<close> returns what the superclass's \<open>_push\<close> returned unless
  \<open>shouldSubscribe\<close> accepts a pushed record whose model name is inherited from
  \<open>Object.prototype\<close>; then it throws a TypeError.
\<close>

lemma push_returns_unless_inherited:
  "fst (mixin_push env p ((run env es store_init)\<lparr>internalModels := ims\<rparr>))
     = (if \<forall>q\<in>set (interest_in env (pushed_models ((run env es store_init)\<lparr>internalModels := ims\<rparr>) p)).
             fst q \<notin> set Object_prototype
        then Inr p else Inl TypeError)"
proof -
  let ?st = "(run env es store_init)\<lparr>internalModels := ims\<rparr>"
  let ?qs = "interest_in env (pushed_models ?st p)"
  have "registry_ok (run env es store_init)" by (rule registry_ok_run [OF registry_ok_init])
  then have ok: "registry_ok ?st" by (simp add: registry_ok_def performed_def)
  have "fst (push_models env ?st (pushed_models ?st p))
      = (if before_inherited ?qs = ?qs then None else Some TypeError)"
    using push_models_registers [OF ok, of env "pushed_models ?st p"] by auto
  moreover have "(before_inherited ?qs = ?qs) = (\<forall>q\<in>set ?qs. fst q \<notin> set Object_prototype)"
    by (auto simp: before_inherited_def takeWhile_eq_all_conv)
  ultimately show ?thesis
    unfolding mixin_push_models [of env p ?st] by simp
qed

definition constructors :: "nat \<Rightarrow> internalModel" where
  "constructors r = \<lparr>modelName = ''constructor'', internal_id = ''1'', internal_data = JNull\<rparr>"

definition mixed :: "nat \<Rightarrow> internalModel" where
  "mixed r = (if r = 0 then article ''1'' else if r = 2 then article ''2'' else constructors r)"

text \<open>
  C10 fails on the code. For a record of a model named \<open>constructor\<close>, with the default
  \<open>shouldSubscribe\<close>, \<open>subscriptions[modelName]\<close> is the function every object inherits
  under that name; it has no \<open>includes\<close>, so \<open>_push\<close> throws a TypeError where it should
  return the superclass's value. Nothing is recorded for the record, and the exception
  leaves \<open>_push\<close>. In an array, the records before it are registered and those behind it
  are not reached.
\<close>

theorem push_throws_for_inherited_name:
  "mixin_push example_env (POne 0) (store_init\<lparr>internalModels := constructors\<rparr>)
     = (Inl TypeError, store_init\<lparr>internalModels := constructors\<rparr>)
   \<and> uncaught (run example_env [Push constructors (POne 0)] store_init) = [TypeError]
   \<and> subscriptions (run example_env [Push constructors (POne 0)] store_init) = []
   \<and> fst (mixin_push example_env (PMany [0, 3, 2]) (store_init\<lparr>internalModels := mixed\<rparr>))
     = Inl TypeError
   \<and> subscriptions (run example_env [Push mixed (PMany [0, 3, 2])] store_init)
     = [(''article'', [''1''])]"
  by (simp add: constructors_def mixed_def article_def store_simps example_simps)

end
